theory Spec2Isabelle
  imports Complex_Main "HOL-Library.Multiset"
begin

section \<open>Conventions of the embedding\<close>

text \<open>
  The TypeScript sources are embedded function by function. A JavaScript \<^verbatim>\<open>number\<close> is a
  \<^typ>\<open>real\<close>, the doubles being the reals that rounding returns. Where a result depends
  on the rounding of IEEE 754 double arithmetic (the percentile index of calculatePercentile,
  the score, probability and label of classification) every operation is rounded as the
  code rounds it; the other functions are idealised over the reals. The exceptional
  values that the code can produce (\<^verbatim>\<open>undefined\<close> from an array read out of range,
  \<^verbatim>\<open>NaN\<close> from \<^verbatim>\<open>0/0\<close>) are modelled explicitly; overflow to an infinity and
  subnormal numbers are not. Arrays that are passed by reference live in a store, so that
  in-place mutation is visible.
\<close>

section \<open>IEEE 754 binary64 rounding\<close>

text \<open>
  Every arithmetic operation of JavaScript returns the double nearest to the exact result,
  ties going to the double with an even significand. A double has a significand of 53
  bits: in the binade \<open>2^e \<le> |x| < 2^(e+1)\<close> the doubles are the multiples of
  \<open>2^(e-52)\<close>.
\<close>

definition roundTiesToEven :: "real \<Rightarrow> int" where
  "roundTiesToEven y =
     (let f = \<lfloor>y\<rfloor>; d = y - of_int f
      in if d < 1 / 2 then f
         else if 1 / 2 < d then f + 1
         else if even f then f else f + 1)"

definition fl :: "real \<Rightarrow> real" where
  "fl x =
     (if x = 0 then 0
      else let e = \<lfloor>log 2 \<bar>x\<bar>\<rfloor>;
               ulp = 2 powr (of_int (e - 52))
           in sgn x * of_int (roundTiesToEven (\<bar>x\<bar> / ulp)) * ulp)"

section \<open>utils/helpers.ts\<close>

subsection \<open>The array store\<close>

text \<open>
  A store is the list of the arrays allocated so far; a reference is the position of an
  array in the store. Allocation appends, so references handed out earlier stay valid.
\<close>

type_synonym heap = "real list list"
type_synonym ref = nat

text \<open>\<^verbatim>\<open>xs[i]\<close>: reading outside \<^verbatim>\<open>0 .. length-1\<close> yields \<^verbatim>\<open>undefined\<close>, here \<open>None\<close>.\<close>

definition at_index :: "real list \<Rightarrow> int \<Rightarrow> real option" where
  "at_index xs i = (if 0 \<le> i \<and> i < int (length xs) then Some (xs ! nat i) else None)"

text \<open>\<^verbatim>\<open>[...numbers]\<close>: a fresh array holding the elements of the argument.\<close>

definition spread_copy :: "heap \<Rightarrow> ref \<Rightarrow> ref \<times> heap" where
  "spread_copy h a = (length h, h @ [h ! a])"

text \<open>
  \<^verbatim>\<open>arr.sort((a, b) => a - b)\<close>: sorts the array it is called on in place, ascending, and
  returns the same reference.
\<close>

definition sort_in_place :: "heap \<Rightarrow> ref \<Rightarrow> heap" where
  "sort_in_place h a = h[a := sort (h ! a)]"

subsection \<open>calculateMedian, calculatePercentile\<close>

text \<open>
  \<^verbatim>\<open>(sorted[mid - 1] + sorted[mid]) / 2\<close>: an \<^verbatim>\<open>undefined\<close> operand makes the result a
  non-number, again \<open>None\<close>.
\<close>

definition mean2 :: "real option \<Rightarrow> real option \<Rightarrow> real option" where
  "mean2 x y = (case (x, y) of (Some u, Some v) \<Rightarrow> Some ((u + v) / 2) | _ \<Rightarrow> None)"

definition calculateMedian :: "heap \<Rightarrow> ref \<Rightarrow> real option \<times> heap" where
  "calculateMedian h numbers =
     (if length (h ! numbers) = 0 then (Some 0, h)
      else
        let (sorted, h1) = spread_copy h numbers;
            h2 = sort_in_place h1 sorted;
            mid = int (length (h2 ! sorted) div 2)
        in (if length (h2 ! sorted) mod 2 \<noteq> 0
            then at_index (h2 ! sorted) mid
            else mean2 (at_index (h2 ! sorted) (mid - 1)) (at_index (h2 ! sorted) mid),
            h2))"

definition calculatePercentile :: "heap \<Rightarrow> ref \<Rightarrow> real \<Rightarrow> real option \<times> heap" where
  "calculatePercentile h numbers percentile =
     (if length (h ! numbers) = 0 then (Some 0, h)
      else
        let (sorted, h1) = spread_copy h numbers;
            h2 = sort_in_place h1 sorted;
            index = \<lceil>fl (fl (percentile / 100) * real (length (h2 ! sorted)))\<rceil> - 1
        in (at_index (h2 ! sorted) (max 0 index), h2))"

section \<open>services/aiService.ts\<close>

datatype error = TypeError | UnsupportedType string | PersistenceError

type_synonym clock = "nat \<Rightarrow> int"

definition toLowerChar :: "char \<Rightarrow> char" where
  "toLowerChar c =
     (let n = (of_char c :: nat)
      in if (65 \<le> n \<and> n \<le> 90) \<or> (192 \<le> n \<and> n \<le> 222 \<and> n \<noteq> 215)
         then char_of (n + 32) else c)"

definition toLowerCase :: "string \<Rightarrow> string" where
  "toLowerCase s = map toLowerChar s"

fun split_on :: "(char \<Rightarrow> bool) \<Rightarrow> string \<Rightarrow> string list" where
  "split_on sep [] = [[]]"
| "split_on sep (c # cs) =
     (if sep c then [] # split_on sep cs
      else (case split_on sep cs of [] \<Rightarrow> [[c]] | w # ws \<Rightarrow> (c # w) # ws))"

fun startsWith :: "string \<Rightarrow> string \<Rightarrow> bool" where
  "startsWith s [] = True"
| "startsWith [] (k # ks) = False"
| "startsWith (c # cs) (k # ks) = (c = k \<and> startsWith cs ks)"

fun includes_str :: "string \<Rightarrow> string \<Rightarrow> bool" where
  "includes_str [] k = startsWith [] k"
| "includes_str (c # cs) k = (startsWith (c # cs) k \<or> includes_str cs k)"

definition positiveWords :: "string list" where
  "positiveWords = [''good'', ''great'', ''excellent'', ''amazing'', ''wonderful'',
     ''fantastic'', ''love'', ''like'', ''happy'', ''joy'']"

definition negativeWords :: "string list" where
  "negativeWords = [''bad'', ''terrible'', ''awful'', ''hate'', ''dislike'', ''sad'',
     ''angry'', ''frustrated'', ''disappointed'']"

record SentimentResult =
  s_sentiment :: string
  s_confidence :: real
  s_positive :: int
  s_negative :: int
  s_neutral :: int
  s_processingTime :: int

definition countWord :: "int \<times> int \<Rightarrow> string \<Rightarrow> int \<times> int" where
  "countWord acc word =
     (let (positiveScore, negativeScore) = acc;
          positiveScore = (if word \<in> set positiveWords then positiveScore + 1 else positiveScore);
          negativeScore = (if word \<in> set negativeWords then negativeScore + 1 else negativeScore)
      in (positiveScore, negativeScore))"

definition analyzeSentiment :: "clock \<Rightarrow> nat \<Rightarrow> string \<Rightarrow> error + SentimentResult" where
  "analyzeSentiment now t text =
     (let startTime = now t;
          words = split_on (\<lambda>c. c = CHR '' '') (toLowerCase text);
          (positiveScore, negativeScore) = foldl countWord (0, 0) words;
          totalScore = positiveScore - negativeScore;
          (sentiment, confidence) =
            (if totalScore > 0 then (''positive'', min 0.9 (0.5 + real_of_int totalScore * 0.1))
             else if totalScore < 0 then (''negative'', min 0.9 (0.5 + real_of_int \<bar>totalScore\<bar> * 0.1))
             else (''neutral'', 0.6))
      in Inr \<lparr> s_sentiment = sentiment, s_confidence = confidence,
               s_positive = positiveScore, s_negative = negativeScore,
               s_neutral = int (length words) - positiveScore - negativeScore,
               s_processingTime = now (t + 1) - startTime \<rparr>)"


record CategoryScore =
  cs_category :: string
  cs_score :: nat
  cs_confidence :: real

record ClassificationResult =
  c_category :: string
  c_confidence :: real
  c_allScores :: "CategoryScore list"
  c_processingTime :: int

definition categories :: "(string \<times> string list) list" where
  "categories =
     [(''technology'', [''ai'', ''machine learning'', ''software'', ''computer'', ''programming'', ''code'']),
      (''business'', [''revenue'', ''profit'', ''market'', ''sales'', ''customer'', ''strategy'']),
      (''science'', [''research'', ''study'', ''experiment'', ''data'', ''analysis'', ''hypothesis'']),
      (''entertainment'', [''movie'', ''music'', ''game'', ''fun'', ''entertainment'', ''show'']),
      (''sports'', [''game'', ''team'', ''player'', ''score'', ''match'', ''competition''])]"

definition reduce1 :: "('a \<Rightarrow> 'a \<Rightarrow> 'a) \<Rightarrow> 'a list \<Rightarrow> error + 'a" where
  "reduce1 f xs = (case xs of [] \<Rightarrow> Inl TypeError | x # rest \<Rightarrow> Inr (foldl f x rest))"

definition scoreCategory :: "string \<Rightarrow> string \<times> string list \<Rightarrow> CategoryScore" where
  "scoreCategory textLower category =
     (let score = foldl (\<lambda>acc keyword. acc + (if includes_str textLower keyword then 1 else 0))
                    0 (snd category)
      in \<lparr> cs_category = fst category, cs_score = score,
           cs_confidence = min 0.95 (real score * 0.2 + 0.1) \<rparr>)"

definition pickTop :: "CategoryScore \<Rightarrow> CategoryScore \<Rightarrow> CategoryScore" where
  "pickTop prev current = (if cs_score prev > cs_score current then prev else current)"

definition classifyText :: "clock \<Rightarrow> nat \<Rightarrow> string \<Rightarrow> error + ClassificationResult" where
  "classifyText now t text =
     (let startTime = now t;
          textLower = toLowerCase text;
          categoryScores = map (scoreCategory textLower) categories
      in case reduce1 pickTop categoryScores of
           Inl e \<Rightarrow> Inl e
         | Inr topCategory \<Rightarrow>
             Inr \<lparr> c_category = cs_category topCategory,
                   c_confidence = cs_confidence topCategory,
                   c_allScores = categoryScores,
                   c_processingTime = now (t + 1) - startTime \<rparr>)"


subsection \<open>summarizeText\<close>

definition isWhiteSpace :: "char \<Rightarrow> bool" where
  "isWhiteSpace c = (let n = (of_char c :: nat) in (9 \<le> n \<and> n \<le> 13) \<or> n = 32 \<or> n = 160)"

definition trim :: "string \<Rightarrow> string" where
  "trim s = rev (dropWhile isWhiteSpace (rev (dropWhile isWhiteSpace s)))"

function split_runs :: "(char \<Rightarrow> bool) \<Rightarrow> string \<Rightarrow> string list" where
  "split_runs sep [] = [[]]"
| "split_runs sep (c # cs) =
     (if sep c then [] # split_runs sep (dropWhile sep cs)
      else (case split_runs sep cs of [] \<Rightarrow> [[c]] | w # ws \<Rightarrow> (c # w) # ws))"
  by pat_completeness auto
termination
  by (relation "measure (\<lambda>(sep, s). length s)") (auto simp: length_dropWhile_le le_imp_less_Suc)

definition isSentenceEnd :: "char \<Rightarrow> bool" where
  "isSentenceEnd c = (c = CHR ''.'' \<or> c = CHR ''!'' \<or> c = CHR ''?'')"

fun join :: "string \<Rightarrow> string list \<Rightarrow> string" where
  "join sep [] = []"
| "join sep [x] = x"
| "join sep (x # y # ys) = x @ sep @ join sep (y # ys)"

function digits :: "nat \<Rightarrow> string" where
  "digits n = (if n < 10 then [char_of (48 + n)] else digits (n div 10) @ [char_of (48 + n mod 10)])"
  by pat_completeness auto
termination
  by (relation "measure id") auto

declare digits.simps [simp del]

definition toFixed2 :: "real \<Rightarrow> string" where
  "toFixed2 x =
     (let n = nat \<lfloor>x * 100 + 1 / 2\<rfloor>
      in digits (n div 100) @ ''.'' @ digits (n mod 100 div 10) @ digits (n mod 10))"

definition ratioToFixed2 :: "nat \<Rightarrow> nat \<Rightarrow> string" where
  "ratioToFixed2 a b =
     (if b = 0 then (if a = 0 then ''NaN'' else ''Infinity'')
      else toFixed2 (real a / real b))"

record SummaryResult =
  sm_summary :: string
  sm_originalLength :: nat
  sm_summaryLength :: nat
  sm_compressionRatio :: string
  sm_processingTime :: int

definition summarizeText :: "clock \<Rightarrow> nat \<Rightarrow> string \<Rightarrow> real \<Rightarrow> error + SummaryResult" where
  "summarizeText now t text maxTokens =
     (let startTime = now t;
          sentences = filter (\<lambda>s. length (trim s) > 0) (split_runs isSentenceEnd text);
          summaryLength = min 3 (max 1 (nat \<lfloor>real (length sentences) * 0.3\<rfloor>));
          summary = join ''. '' (take summaryLength sentences) @ ''.''
      in Inr \<lparr> sm_summary = summary,
               sm_originalLength = length text,
               sm_summaryLength = length summary,
               sm_compressionRatio = ratioToFixed2 (length summary) (length text),
               sm_processingTime = now (t + 1) - startTime \<rparr>)"


subsection \<open>translateText\<close>

definition translations_tbl :: "(string \<times> (string \<times> string) list) list" where
  "translations_tbl =
     [(''es'', [(''hello'', ''hola''), (''world'', ''mundo''), (''good'', ''bueno''),
               (''morning'', ''ma'' @ [CHR 0xC3, CHR 0xB1] @ ''ana''), (''thank you'', ''gracias'')]),
      (''fr'', [(''hello'', ''bonjour''), (''world'', ''monde''), (''good'', ''bon''),
               (''morning'', ''matin''), (''thank you'', ''merci'')])]"

function replace_gi :: "string \<Rightarrow> string \<Rightarrow> string \<Rightarrow> string" where
  "replace_gi english translated [] = []"
| "replace_gi english translated (c # cs) =
     (if startsWith (toLowerCase (c # cs)) (toLowerCase english)
      then translated @ replace_gi english translated (drop (length english - 1) cs)
      else c # replace_gi english translated cs)"
  by pat_completeness auto
termination
  by (relation "measure (\<lambda>(e, t, s). length s)") auto

record TranslationResult =
  tr_originalText :: string
  tr_translatedText :: string
  tr_sourceLanguage :: string
  tr_targetLanguage :: string
  tr_confidence :: real
  tr_processingTime :: int

definition translateText :: "clock \<Rightarrow> nat \<Rightarrow> string \<Rightarrow> string \<Rightarrow> error + TranslationResult" where
  "translateText now t text targetLanguage =
     (let startTime = now t;
          langTranslations = (case map_of translations_tbl targetLanguage of
                                Some d \<Rightarrow> d | None \<Rightarrow> []);
          translatedText = foldl (\<lambda>translatedText (english, translated).
                                    replace_gi english translated translatedText)
                             (toLowerCase text) langTranslations
      in Inr \<lparr> tr_originalText = text, tr_translatedText = translatedText,
               tr_sourceLanguage = ''en'', tr_targetLanguage = targetLanguage,
               tr_confidence = 0.85, tr_processingTime = now (t + 1) - startTime \<rparr>)"

subsection \<open>Regular expressions\<close>

datatype regex =
    Chr "char \<Rightarrow> bool"
  | WordB
  | Seq regex regex
  | Rep regex nat "nat option"

primrec rsize :: "regex \<Rightarrow> nat" where
  "rsize (Chr P) = 0"
| "rsize WordB = 0"
| "rsize (Seq a b) = Suc (rsize a + rsize b)"
| "rsize (Rep r mn mx) = Suc (rsize r)"

definition isDigit :: "char \<Rightarrow> bool" where
  "isDigit c = (let n = (of_char c :: nat) in 48 \<le> n \<and> n \<le> 57)"

definition isUpper :: "char \<Rightarrow> bool" where
  "isUpper c = (let n = (of_char c :: nat) in 65 \<le> n \<and> n \<le> 90)"

definition isLower :: "char \<Rightarrow> bool" where
  "isLower c = (let n = (of_char c :: nat) in 97 \<le> n \<and> n \<le> 122)"

definition isWordChar :: "char \<Rightarrow> bool" where
  "isWordChar c = (isUpper c \<or> isLower c \<or> isDigit c \<or> c = CHR ''_'')"

definition atWordBoundary :: "string \<Rightarrow> nat \<Rightarrow> bool" where
  "atWordBoundary s i =
     ((0 < i \<and> i - 1 < length s \<and> isWordChar (s ! (i - 1))) \<noteq> (i < length s \<and> isWordChar (s ! i)))"

function ends :: "regex \<Rightarrow> string \<Rightarrow> nat \<Rightarrow> nat list" where
  "ends (Chr P) s i = (if i < length s \<and> P (s ! i) then [i + 1] else [])"
| "ends WordB s i = (if atWordBoundary s i then [i] else [])"
| "ends (Seq a b) s i = concat (map (\<lambda>j. ends b s j) (ends a s i))"
| "ends (Rep r mn mx) s i =
     (if mx = Some 0 then []
      else concat (map (\<lambda>j. if i < j \<and> j \<le> length s
                              then ends (Rep r (mn - 1) (map_option (\<lambda>m. m - 1) mx)) s j
                              else [])
                       (ends r s i)))
     @ (if mn = 0 then [i] else [])"
  by pat_completeness auto
termination
  by (relation "measures [\<lambda>(r, s, i). rsize r, \<lambda>(r, s, i). length s - i]") auto

declare ends.simps [simp del]

function findFrom :: "regex \<Rightarrow> string \<Rightarrow> nat \<Rightarrow> (nat \<times> nat) option" where
  "findFrom re s k =
     (if length s < k then None
      else (case ends re s k of e # _ \<Rightarrow> Some (k, e) | [] \<Rightarrow> findFrom re s (k + 1)))"
  by pat_completeness auto
termination
  by (relation "measure (\<lambda>(re, s, k). Suc (length s) - k)") auto

declare findFrom.simps [simp del]


lemma ends_ge: "j \<in> set (ends r s i) \<Longrightarrow> i \<le> j"
proof (induction r s i arbitrary: j rule: ends.induct)
  case (1 P s i)
  then show ?case by (simp add: ends.simps split: if_splits)
next
  case (2 s i)
  then show ?case by (simp add: ends.simps split: if_splits)
next
  case (3 a b s i)
  from "3.prems" obtain k where k: "k \<in> set (ends a s i)" and j: "j \<in> set (ends b s k)"
    by (auto simp: ends.simps(3))
  from "3.IH"(1) [OF k] "3.IH"(2) [OF k j] show ?case by simp
next
  case (4 r mn mx s i)
  from "4.prems" consider
      (iter) k where "mx \<noteq> Some 0" "k \<in> set (ends r s i)" "i < k" "k \<le> length s"
              "j \<in> set (ends (Rep r (mn - 1) (map_option (\<lambda>m. m - 1) mx)) s k)"
    | (stop) "j = i"
    unfolding ends.simps(4) [of r mn mx s i] by (auto split: if_splits)
  then show ?case
  proof cases
    case iter
    from "4.IH"(2) [OF iter(1,2) _ iter(5)] iter(3,4) show ?thesis by simp
  next
    case stop
    then show ?thesis by simp
  qed
qed

lemma findFrom_bounds: "findFrom re s k = Some (b, e) \<Longrightarrow> k \<le> b \<and> b \<le> length s \<and> b \<le> e"
proof (induction re s k rule: findFrom.induct)
  case (1 re s k)
  show ?case
  proof (cases "ends re s k")
    case Nil
    with "1.prems" "1.IH" show ?thesis
      by (fastforce simp: findFrom.simps [of re s k] split: if_splits)
  next
    case (Cons x xs)
    then have "x \<in> set (ends re s k)" by simp
    then have "k \<le> x" by (rule ends_ge)
    with Cons "1.prems" show ?thesis
      by (auto simp: findFrom.simps [of re s k] split: if_splits)
  qed
qed

function spans :: "regex \<Rightarrow> string \<Rightarrow> nat \<Rightarrow> (nat \<times> nat) list" where
  "spans re s lastIndex =
     (case findFrom re s lastIndex of
        None \<Rightarrow> []
      | Some (b, e) \<Rightarrow> (b, e) # spans re s (if e = b then e + 1 else e))"
  by pat_completeness auto
termination
proof (relation "measure (\<lambda>(re, s, k). Suc (length s) - k)")
  show "wf (measure (\<lambda>(re, s, k). Suc (length s) - k))" by simp
next
  fix re s lastIndex x2 b e
  assume "findFrom re s lastIndex = Some x2" and "(b, e) = x2"
  then have "findFrom re s lastIndex = Some (b, e)" by simp
  from findFrom_bounds [OF this]
  show "((re, s, if e = b then e + 1 else e), re, s, lastIndex)
          \<in> measure (\<lambda>(re, s, k). Suc (length s) - k)"
    by auto
qed

declare spans.simps [simp del]

definition substring :: "string \<Rightarrow> nat \<Rightarrow> nat \<Rightarrow> string" where
  "substring s b e = take (e - b) (drop b s)"

definition match_g :: "string \<Rightarrow> regex \<Rightarrow> string list option" where
  "match_g text pattern =
     (case spans pattern text 0 of
        [] \<Rightarrow> None
      | sp \<Rightarrow> Some (map (\<lambda>(b, e). substring text b e) sp))"

fun indexOf :: "string \<Rightarrow> string \<Rightarrow> int" where
  "indexOf [] m = (if startsWith [] m then 0 else - 1)"
| "indexOf (c # cs) m =
     (if startsWith (c # cs) m then 0
      else (let r = indexOf cs m in if r < 0 then - 1 else r + 1))"

subsection \<open>extractEntities\<close>

fun seqs :: "regex list \<Rightarrow> regex" where
  "seqs [] = Rep WordB 0 (Some 0)"
| "seqs [r] = r"
| "seqs (r # rs) = Seq r (seqs rs)"

definition re_lit :: "char \<Rightarrow> regex" where
  "re_lit c = Chr (\<lambda>x. x = c)"

definition re_plus :: "regex \<Rightarrow> regex" where
  "re_plus r = Rep r 1 None"

definition re_star :: "regex \<Rightarrow> regex" where
  "re_star r = Rep r 0 None"

definition re_opt :: "regex \<Rightarrow> regex" where
  "re_opt r = Rep r 0 (Some 1)"

definition re_times :: "nat \<Rightarrow> regex \<Rightarrow> regex" where
  "re_times n r = Rep r n (Some n)"

definition re_digit :: regex where
  "re_digit = Chr isDigit"

definition emailPattern :: regex where
  "emailPattern =
     seqs [WordB,
           re_plus (Chr (\<lambda>c. isUpper c \<or> isLower c \<or> isDigit c \<or> c \<in> set ''._%+-'')),
           re_lit CHR ''@'',
           re_plus (Chr (\<lambda>c. isUpper c \<or> isLower c \<or> isDigit c \<or> c \<in> set ''.-'')),
           re_lit CHR ''.'',
           Rep (Chr (\<lambda>c. isUpper c \<or> c = CHR ''|'' \<or> isLower c)) 2 None,
           WordB]"

definition phonePattern :: regex where
  "phonePattern =
     seqs [WordB, re_times 3 re_digit, re_lit CHR ''-'', re_times 3 re_digit, re_lit CHR ''-'', re_times 4 re_digit, WordB]"

definition datePattern :: regex where
  "datePattern =
     seqs [WordB, Rep re_digit 1 (Some 2), re_lit CHR ''/'', Rep re_digit 1 (Some 2), re_lit CHR ''/'',
           re_times 4 re_digit, WordB]"

definition urlPattern :: regex where
  "urlPattern =
     seqs [re_lit CHR ''h'', re_lit CHR ''t'', re_lit CHR ''t'', re_lit CHR ''p'', re_opt (re_lit CHR ''s''),
           re_lit CHR '':'', re_lit CHR ''/'', re_lit CHR ''/'',
           re_plus (Chr (\<lambda>c. \<not> isWhiteSpace c))]"

definition moneyPattern :: regex where
  "moneyPattern =
     seqs [re_lit CHR ''$'', re_plus re_digit,
           re_star (seqs [re_lit CHR '','', re_times 3 re_digit]),
           re_opt (seqs [re_lit CHR ''.'', re_times 2 re_digit])]"

definition patterns :: "(string \<times> regex) list" where
  "patterns =
     [(''email'', emailPattern), (''phone'', phonePattern), (''date'', datePattern),
      (''url'', urlPattern), (''money'', moneyPattern)]"

record Entity =
  e_text :: string
  e_type :: string
  e_confidence :: real
  e_startIndex :: int
  e_endIndex :: int

record EntityResult =
  en_entities :: "Entity list"
  en_totalEntities :: nat
  en_processingTime :: int

definition pushMatch :: "string \<Rightarrow> string \<Rightarrow> Entity list \<Rightarrow> string \<Rightarrow> Entity list" where
  "pushMatch text type entities match =
     entities @ [\<lparr> e_text = match, e_type = type, e_confidence = 0.9,
                    e_startIndex = indexOf text match,
                    e_endIndex = indexOf text match + int (length match) \<rparr>]"

definition applyPattern :: "string \<Rightarrow> Entity list \<Rightarrow> string \<times> regex \<Rightarrow> Entity list" where
  "applyPattern text entities entry =
     (case match_g text (snd entry) of
        None \<Rightarrow> entities
      | Some matches \<Rightarrow> foldl (pushMatch text (fst entry)) entities matches)"

definition extractEntities :: "clock \<Rightarrow> nat \<Rightarrow> string \<Rightarrow> error + EntityResult" where
  "extractEntities now t text =
     (let startTime = now t;
          entities = foldl (applyPattern text) [] patterns
      in Inr \<lparr> en_entities = entities, en_totalEntities = length entities,
               en_processingTime = now (t + 1) - startTime \<rparr>)"


text \<open>The object that \<^verbatim>\<open>extractEntities\<close> pushes for the match at a span of the text.\<close>

definition entityOf :: "string \<Rightarrow> string \<Rightarrow> nat \<times> nat \<Rightarrow> Entity" where
  "entityOf text type sp =
     \<lparr> e_text = substring text (fst sp) (snd sp), e_type = type, e_confidence = 0.9,
       e_startIndex = indexOf text (substring text (fst sp) (snd sp)),
       e_endIndex = indexOf text (substring text (fst sp) (snd sp))
                      + int (length (substring text (fst sp) (snd sp))) \<rparr>"

subsection \<open>processAnalysis\<close>

record AnalysisOptions =
  op_language :: "string option"
  op_confidence :: "real option"
  op_maxTokens :: "real option"

record AIAnalysisRequest =
  rq_text :: string
  rq_analysisType :: string
  rq_options :: "AnalysisOptions option"

datatype AnalysisData =
    SentimentData SentimentResult
  | ClassificationData ClassificationResult
  | SummaryData SummaryResult
  | TranslationData TranslationResult
  | EntityData EntityResult

record AIAnalysisResponse =
  rs_analysisType :: string
  rs_confidence :: real
  rs_data :: AnalysisData
  rs_processingTime :: int
  rs_model :: string
  rs_version :: string
  rs_tokensUsed :: nat

definition data_confidence :: "AnalysisData \<Rightarrow> real option" where
  "data_confidence d =
     (case d of
        SentimentData r \<Rightarrow> Some (s_confidence r)
      | ClassificationData r \<Rightarrow> Some (c_confidence r)
      | SummaryData r \<Rightarrow> None
      | TranslationData r \<Rightarrow> Some (tr_confidence r)
      | EntityData r \<Rightarrow> None)"

definition or_else :: "real option \<Rightarrow> real \<Rightarrow> real" where
  "or_else x d = (case x of None \<Rightarrow> d | Some v \<Rightarrow> if v = 0 then d else v)"

definition option_field :: "'o option \<Rightarrow> ('o \<Rightarrow> 'a option) \<Rightarrow> 'a option" where
  "option_field opts f = (case opts of None \<Rightarrow> None | Some p \<Rightarrow> f p)"

definition default_arg :: "'a option \<Rightarrow> 'a \<Rightarrow> 'a" where
  "default_arg x d = (case x of None \<Rightarrow> d | Some v \<Rightarrow> v)"

definition dispatchAnalysis :: "clock \<Rightarrow> nat \<Rightarrow> AIAnalysisRequest \<Rightarrow> error + AnalysisData" where
  "dispatchAnalysis now t request =
     (if rq_analysisType request = ''sentiment''
        then map_sum id SentimentData (analyzeSentiment now t (rq_text request))
      else if rq_analysisType request = ''classification''
        then map_sum id ClassificationData (classifyText now t (rq_text request))
      else if rq_analysisType request = ''summarization''
        then map_sum id SummaryData
               (summarizeText now t (rq_text request)
                  (default_arg (option_field (rq_options request) op_maxTokens) 100))
      else if rq_analysisType request = ''translation''
        then map_sum id TranslationData
               (translateText now t (rq_text request)
                  (default_arg (option_field (rq_options request) op_language) ''es''))
      else if rq_analysisType request = ''entity_extraction''
        then map_sum id EntityData (extractEntities now t (rq_text request))
      else Inl (UnsupportedType (rq_analysisType request)))"

definition processAnalysis :: "clock \<Rightarrow> nat \<Rightarrow> AIAnalysisRequest \<Rightarrow> error + AIAnalysisResponse" where
  "processAnalysis now t request =
     (let startTime = now t
      in case dispatchAnalysis now (t + 1) request of
           Inl e \<Rightarrow> Inl e
         | Inr result \<Rightarrow>
             (let processingTime = now (t + 3) - startTime
              in Inr \<lparr> rs_analysisType = rq_analysisType request,
                       rs_confidence = or_else (data_confidence result) 0.8,
                       rs_data = result,
                       rs_processingTime = processingTime,
                       rs_model = ''demo-model-v1'',
                       rs_version = ''1.0.0'',
                       rs_tokensUsed = length (rq_text request) div 4 \<rparr>))"

section \<open>services/mlService.ts\<close>

datatype jsnum = Num real | NaN

datatype prediction = PredNum real | PredLabel string

datatype ScorerInfo =
    LinearInfo "real list" real real
  | LogisticInfo real real
  | KMeansInfo nat "real list list"
  | IsolationInfo real "(real \<times> real) list"

record ScorerResult =
  sr_prediction :: prediction
  sr_confidence :: jsnum
  sr_probabilities :: "(real \<times> real) option"
  sr_distance :: "real option"
  sr_anomalyScore :: "jsnum option"
  sr_outOfRangeFeatures :: "nat option"
  sr_modelInfo :: ScorerInfo

text \<open>
  \<^verbatim>\<open>x.toFixed(3)\<close>: the decimal with three fraction digits nearest to \<open>x\<close>, the larger one
  on a tie. \<open>toFixed3 x\<close> is the value of that decimal; \<^verbatim>\<open>parseFloat\<close> of it is the double
  nearest to this value, written \<open>fl (toFixed3 x)\<close> where rounding is modelled.
\<close>

definition toFixed3 :: "real \<Rightarrow> real" where
  "toFixed3 x =
     (if x < 0 then - (real_of_int \<lfloor>(- x) * 1000 + 1 / 2\<rfloor> / 1000)
      else real_of_int \<lfloor>x * 1000 + 1 / 2\<rfloor> / 1000)"

function weightedSum :: "real list \<Rightarrow> real list \<Rightarrow> nat \<Rightarrow> real \<Rightarrow> real" where
  "weightedSum features weights i acc =
     (if i < min (length features) (length weights)
      then weightedSum features weights (i + 1) (acc + features ! i * weights ! i)
      else acc)"
  by pat_completeness auto
termination
  by (relation "measure (\<lambda>(f, w, i, a). min (length f) (length w) - i)") auto

declare weightedSum.simps [simp del]

definition linearRegression :: "real \<Rightarrow> real list \<Rightarrow> error + ScorerResult" where
  "linearRegression random features =
     (let weights = [0.5, - 0.3, 0.8, 0.2, - 0.1];
          bias = 1.2;
          prediction = weightedSum features weights 0 bias;
          noise = (random - 0.5) * 0.1;
          prediction = prediction + noise
      in Inr \<lparr> sr_prediction = PredNum (toFixed3 prediction),
               sr_confidence = Num 0.85,
               sr_probabilities = None, sr_distance = None, sr_anomalyScore = None,
               sr_outOfRangeFeatures = None,
               sr_modelInfo = LinearInfo (take (length features) weights) bias 0.82 \<rparr>)"

text \<open>
  The loop of classification, each product and each sum rounded. \<^verbatim>\<open>Math.exp\<close> is left to
  the implementation by the language, so it is a parameter: any function from doubles to
  doubles.
\<close>

function scoreLoop :: "real list \<Rightarrow> real list \<Rightarrow> nat \<Rightarrow> real \<Rightarrow> real" where
  "scoreLoop features weights i score =
     (if i < min (length features) (length weights)
      then scoreLoop features weights (i + 1) (fl (score + fl (features ! i * weights ! i)))
      else score)"
  by pat_completeness auto
termination
  by (relation "measure (\<lambda>(f, w, i, a). min (length f) (length w) - i)") auto

declare scoreLoop.simps [simp del]

definition classification :: "(real \<Rightarrow> real) \<Rightarrow> real list \<Rightarrow> bool \<Rightarrow> error + ScorerResult" where
  "classification Math_exp features returnProbabilities =
     (let weights = [fl 0.7, - fl 0.4, fl 0.6, - fl 0.2, fl 0.3];
          bias = fl 0.1;
          score = scoreLoop features weights 0 bias;
          probability = fl (1 / fl (1 + Math_exp (- score)));
          prediction = (if probability > 0.5 then ''positive'' else ''negative'');
          confidence = fl (\<bar>fl (probability - 0.5)\<bar> * 2)
      in Inr \<lparr> sr_prediction = PredLabel prediction,
               sr_confidence = Num (fl (toFixed3 confidence)),
               sr_probabilities =
                 (if returnProbabilities
                  then Some (fl (toFixed3 probability), fl (toFixed3 (fl (1 - probability))))
                  else None),
               sr_distance = None, sr_anomalyScore = None, sr_outOfRangeFeatures = None,
               sr_modelInfo = LogisticInfo 0.5 0.89 \<rparr>)"

function squaredDistance :: "real list \<Rightarrow> real list \<Rightarrow> nat \<Rightarrow> real \<Rightarrow> real" where
  "squaredDistance features centroid i distance =
     (if i < min (length features) (length centroid)
      then squaredDistance features centroid (i + 1)
             (distance + (features ! i - centroid ! i) ^ 2)
      else distance)"
  by pat_completeness auto
termination
  by (relation "measure (\<lambda>(f, c, i, d). min (length f) (length c) - i)") auto

declare squaredDistance.simps [simp del]

definition centroids :: "real list list" where
  "centroids = [[1.0, 2.0, 1.5], [- 1.0, 0.5, - 0.5], [2.5, - 1.0, 3.0]]"

definition nearer :: "real list \<Rightarrow> real option \<times> nat \<Rightarrow> nat \<times> real list \<Rightarrow> real option \<times> nat" where
  "nearer features st entry =
     (let (minDistance, assignedCluster) = st;
          (index, centroid) = entry;
          distance = sqrt (squaredDistance features centroid 0 0)
      in if (case minDistance of None \<Rightarrow> True | Some m \<Rightarrow> distance < m)
         then (Some distance, index)
         else (minDistance, assignedCluster))"

definition clustering :: "real list \<Rightarrow> error + ScorerResult" where
  "clustering features =
     (let (minDistance, assignedCluster) =
            foldl (nearer features) (None, 0) (enumerate 0 centroids);
          confidence = (case minDistance of None \<Rightarrow> 0.1 | Some m \<Rightarrow> max 0.1 (1 - m / 10))
      in Inr \<lparr> sr_prediction = PredLabel (''cluster_'' @ digits assignedCluster),
               sr_confidence = Num (toFixed3 confidence),
               sr_probabilities = None,
               sr_distance = map_option toFixed3 minDistance,
               sr_anomalyScore = None, sr_outOfRangeFeatures = None,
               sr_modelInfo = KMeansInfo 3 centroids \<rparr>)"

definition normalRanges :: "(real \<times> real) list" where
  "normalRanges = [(- 2, 2), (- 1, 3), (0, 4), (- 3, 1), (- 1, 2)]"

definition checkRange :: "real \<times> nat \<Rightarrow> nat \<times> real \<Rightarrow> real \<times> nat" where
  "checkRange st entry =
     (let (anomalyScore, outOfRangeCount) = st;
          (index, feature) = entry
      in if index < length normalRanges
         then (let (range_min, range_max) = normalRanges ! index
               in if feature < range_min \<or> feature > range_max
                  then (anomalyScore + min \<bar>feature - range_min\<bar> \<bar>feature - range_max\<bar>,
                        outOfRangeCount + 1)
                  else (anomalyScore, outOfRangeCount))
         else (anomalyScore, outOfRangeCount))"

definition anomalyDetection :: "real list \<Rightarrow> real \<Rightarrow> error + ScorerResult" where
  "anomalyDetection features threshold =
     (let (anomalyScore, outOfRangeCount) = foldl checkRange (0, 0) (enumerate 0 features)
      in if length features * 2 = 0
         then Inr \<lparr> sr_prediction = PredLabel ''normal'',
                    sr_confidence = NaN,
                    sr_probabilities = None, sr_distance = None,
                    sr_anomalyScore = Some NaN,
                    sr_outOfRangeFeatures = Some outOfRangeCount,
                    sr_modelInfo = IsolationInfo threshold (take (length features) normalRanges) \<rparr>
         else
           (let anomalyScore = min 1 (anomalyScore / real (length features * 2));
                isAnomaly = anomalyScore > threshold;
                confidence = \<bar>anomalyScore - threshold\<bar> + 0.1
            in Inr \<lparr> sr_prediction = PredLabel (if isAnomaly then ''anomaly'' else ''normal''),
                     sr_confidence = Num (toFixed3 (min confidence 1)),
                     sr_probabilities = None, sr_distance = None,
                     sr_anomalyScore = Some (Num (toFixed3 anomalyScore)),
                     sr_outOfRangeFeatures = Some outOfRangeCount,
                     sr_modelInfo = IsolationInfo threshold (take (length features) normalRanges) \<rparr>))"

record MLOptions =
  mo_threshold :: "real option"
  mo_returnProbabilities :: "bool option"

record MLPredictionRequest =
  mq_features :: "real list"
  mq_modelType :: string
  mq_options :: "MLOptions option"

record MLPredictionResponse =
  mr_prediction :: prediction
  mr_confidence :: jsnum
  mr_probabilities :: "(real \<times> real) option"
  mr_type :: string
  mr_version :: string
  mr_accuracy :: real

definition info_accuracy :: "ScorerInfo \<Rightarrow> real option" where
  "info_accuracy i = (case i of LogisticInfo threshold accuracy \<Rightarrow> Some accuracy | _ \<Rightarrow> None)"

definition dispatchPrediction ::
  "(real \<Rightarrow> real) \<Rightarrow> real \<Rightarrow> MLPredictionRequest \<Rightarrow> error + ScorerResult" where
  "dispatchPrediction Math_exp random request =
     (if mq_modelType request = ''linear_regression''
        then linearRegression random (mq_features request)
      else if mq_modelType request = ''classification''
        then classification Math_exp (mq_features request)
               (default_arg (option_field (mq_options request) mo_returnProbabilities) False)
      else if mq_modelType request = ''clustering''
        then clustering (mq_features request)
      else if mq_modelType request = ''anomaly_detection''
        then anomalyDetection (mq_features request)
               (default_arg (option_field (mq_options request) mo_threshold) 0.5)
      else Inl (UnsupportedType (mq_modelType request)))"

definition makePrediction ::
  "(real \<Rightarrow> real) \<Rightarrow> real \<Rightarrow> MLPredictionRequest \<Rightarrow> error + MLPredictionResponse" where
  "makePrediction Math_exp random request =
     (case dispatchPrediction Math_exp random request of
        Inl e \<Rightarrow> Inl e
      | Inr result \<Rightarrow>
          Inr \<lparr> mr_prediction = sr_prediction result,
                mr_confidence = sr_confidence result,
                mr_probabilities = sr_probabilities result,
                mr_type = mq_modelType request,
                mr_version = ''1.0.0'',
                mr_accuracy = or_else (info_accuracy (sr_modelInfo result)) 0.85 \<rparr>)"


section \<open>routes/ai.ts, routes/ml.ts: the batch handlers\<close>

text \<open>
  The handlers run behind \<^verbatim>\<open>authenticateToken\<close> and read the array \<^verbatim>\<open>req.body.requests\<close>
  (\<open>None\<close> when the body holds no array there). The persistence layer (\<^verbatim>\<open>prisma\<close>, from
  \<^verbatim>\<open>config/database\<close>) lies outside the embedded files, so the call that stores an item is a
  parameter \<open>create\<close>: for the item at a position it returns the identifier of the stored
  record or raises. The engine's response has no field named \<^verbatim>\<open>index\<close>, \<^verbatim>\<open>id\<close> or
  \<^verbatim>\<open>success\<close>, so spreading it into the outcome overwrites none of the three. The items
  of a batch run interleaved; \<open>tick\<close> gives the position in the clock readings at which the
  item at an index starts, \<open>random\<close> the value \<^verbatim>\<open>Math.random()\<close> returns for it.
  \<^verbatim>\<open>Promise.all\<close> over \<^verbatim>\<open>requests.map\<close> yields the outcomes in the order of the requests.
\<close>

record 'a BatchItem =
  bi_index :: nat
  bi_id :: "string option"
  bi_success :: bool
  bi_payload :: "'a option"
  bi_error :: "string option"

record 'a BatchData =
  bd_results :: "'a BatchItem list"
  bd_total :: nat
  bd_successful :: nat
  bd_failed :: nat

datatype 'a HttpResponse = Status400 string | Status200 "'a BatchData" string

definition analyzeItem ::
  "(nat \<Rightarrow> AIAnalysisRequest \<Rightarrow> AIAnalysisResponse \<Rightarrow> error + string) \<Rightarrow> clock \<Rightarrow> (nat \<Rightarrow> nat)
     \<Rightarrow> nat \<times> AIAnalysisRequest \<Rightarrow> AIAnalysisResponse BatchItem" where
  "analyzeItem create now tick entry =
     (let (index, request) = entry
      in case processAnalysis now (tick index) request of
           Inl e \<Rightarrow> \<lparr> bi_index = index, bi_id = None, bi_success = False, bi_payload = None,
                      bi_error = Some ''Analysis failed'' \<rparr>
         | Inr analysisResult \<Rightarrow>
             (case create index request analysisResult of
                Inl e \<Rightarrow> \<lparr> bi_index = index, bi_id = None, bi_success = False,
                           bi_payload = None, bi_error = Some ''Analysis failed'' \<rparr>
              | Inr ident \<Rightarrow> \<lparr> bi_index = index, bi_id = Some ident, bi_success = True,
                               bi_payload = Some analysisResult, bi_error = None \<rparr>))"

definition batchAnalyze ::
  "(nat \<Rightarrow> AIAnalysisRequest \<Rightarrow> AIAnalysisResponse \<Rightarrow> error + string) \<Rightarrow> clock \<Rightarrow> (nat \<Rightarrow> nat)
     \<Rightarrow> AIAnalysisRequest list option \<Rightarrow> AIAnalysisResponse HttpResponse" where
  "batchAnalyze create now tick body_requests =
     (case body_requests of
        None \<Rightarrow> Status400 ''Requests must be an array with 1-10 items''
      | Some requests \<Rightarrow>
          if length requests = 0 \<or> length requests > 10
          then Status400 ''Requests must be an array with 1-10 items''
          else
            let results = map (analyzeItem create now tick) (enumerate 0 requests);
                successCount = length (filter bi_success results)
            in Status200 \<lparr> bd_results = results, bd_total = length requests,
                              bd_successful = successCount,
                              bd_failed = length requests - successCount \<rparr>
                 ''Batch analysis completed'')"

definition predictItem ::
  "(nat \<Rightarrow> MLPredictionRequest \<Rightarrow> MLPredictionResponse \<Rightarrow> error + string) \<Rightarrow> (real \<Rightarrow> real)
     \<Rightarrow> (nat \<Rightarrow> real) \<Rightarrow> nat \<times> MLPredictionRequest \<Rightarrow> MLPredictionResponse BatchItem" where
  "predictItem create Math_exp random entry =
     (let (index, request) = entry
      in case makePrediction Math_exp (random index) request of
           Inl e \<Rightarrow> \<lparr> bi_index = index, bi_id = None, bi_success = False, bi_payload = None,
                      bi_error = Some ''Prediction failed'' \<rparr>
         | Inr predictionResult \<Rightarrow>
             (case create index request predictionResult of
                Inl e \<Rightarrow> \<lparr> bi_index = index, bi_id = None, bi_success = False,
                           bi_payload = None, bi_error = Some ''Prediction failed'' \<rparr>
              | Inr ident \<Rightarrow> \<lparr> bi_index = index, bi_id = Some ident, bi_success = True,
                               bi_payload = Some predictionResult, bi_error = None \<rparr>))"

definition batchPredict ::
  "(nat \<Rightarrow> MLPredictionRequest \<Rightarrow> MLPredictionResponse \<Rightarrow> error + string) \<Rightarrow> (real \<Rightarrow> real)
     \<Rightarrow> (nat \<Rightarrow> real) \<Rightarrow> MLPredictionRequest list option \<Rightarrow> MLPredictionResponse HttpResponse" where
  "batchPredict create Math_exp random body_requests =
     (case body_requests of
        None \<Rightarrow> Status400 ''Requests must be an array with 1-20 items''
      | Some requests \<Rightarrow>
          if length requests = 0 \<or> length requests > 20
          then Status400 ''Requests must be an array with 1-20 items''
          else
            let results = map (predictItem create Math_exp random) (enumerate 0 requests);
                successCount = length (filter bi_success results)
            in Status200 \<lparr> bd_results = results, bd_total = length requests,
                              bd_successful = successCount,
                              bd_failed = length requests - successCount \<rparr>
                 ''Batch predictions completed'')"

text \<open>An item raises when its engine call raises or the store call after it raises.\<close>

definition analysisRaises ::
  "(nat \<Rightarrow> AIAnalysisRequest \<Rightarrow> AIAnalysisResponse \<Rightarrow> error + string) \<Rightarrow> clock \<Rightarrow> (nat \<Rightarrow> nat)
     \<Rightarrow> nat \<times> AIAnalysisRequest \<Rightarrow> bool" where
  "analysisRaises create now tick entry =
     (case processAnalysis now (tick (fst entry)) (snd entry) of
        Inl e \<Rightarrow> True
      | Inr a \<Rightarrow> isl (create (fst entry) (snd entry) a))"

definition predictionRaises ::
  "(nat \<Rightarrow> MLPredictionRequest \<Rightarrow> MLPredictionResponse \<Rightarrow> error + string) \<Rightarrow> (real \<Rightarrow> real)
     \<Rightarrow> (nat \<Rightarrow> real) \<Rightarrow> nat \<times> MLPredictionRequest \<Rightarrow> bool" where
  "predictionRaises create Math_exp random entry =
     (case makePrediction Math_exp (random (fst entry)) (snd entry) of
        Inl e \<Rightarrow> True
      | Inr a \<Rightarrow> isl (create (fst entry) (snd entry) a))"

section \<open>Reference definitions that follow the wording of the specification\<close>

text \<open>
  These are not translations of the code: each one writes down what a sentence of the
  specification says, for comparison with the function of the code.
\<close>


text \<open>
  Classification, tie-break as the specification words it: a later category replaces the
  current winner only when its score is strictly greater.
\<close>

definition spec_pickFirst :: "CategoryScore \<Rightarrow> CategoryScore \<Rightarrow> CategoryScore" where
  "spec_pickFirst prev current = (if cs_score current > cs_score prev then current else prev)"

definition spec_firstHighest :: "CategoryScore list \<Rightarrow> error + string" where
  "spec_firstHighest scores = map_sum id cs_category (reduce1 spec_pickFirst scores)"

text \<open>
  Sentiment as the specification words it: the lower-cased text is split on whitespace.
\<close>

definition spec_analyzeSentiment :: "string \<Rightarrow> string \<times> real \<times> int \<times> int \<times> int" where
  "spec_analyzeSentiment text =
     (let ws = split_on isWhiteSpace (toLowerCase text);
          p = int (length (filter (\<lambda>w. w \<in> set positiveWords) ws));
          n = int (length (filter (\<lambda>w. w \<in> set negativeWords) ws));
          score = p - n
      in (if score > 0 then (''positive'', min 0.9 (0.5 + 0.1 * real_of_int score), p, n, int (length ws) - p - n)
          else if score < 0 then (''negative'', min 0.9 (0.5 + 0.1 * real_of_int \<bar>score\<bar>), p, n, int (length ws) - p - n)
          else (''neutral'', 0.6, p, n, int (length ws) - p - n)))"



definition rounded3 :: "real \<Rightarrow> real \<Rightarrow> bool" where
  "rounded3 x y = ((\<exists>k :: int. y = real_of_int k / 1000) \<and> \<bar>y - x\<bar> \<le> 1 / 2000)"


text \<open>
  The same score and probability with every operation rounded to the nearest double, the
  terms added in the order of their index.
\<close>

definition f64_score :: "real list \<Rightarrow> real" where
  "f64_score features =
     foldl (\<lambda>score i. fl (score + fl (features ! i * [fl 0.7, - fl 0.4, fl 0.6, - fl 0.2, fl 0.3] ! i)))
       (fl 0.1) [0 ..< min (length features) 5]"

definition f64_probability :: "(real \<Rightarrow> real) \<Rightarrow> real list \<Rightarrow> real" where
  "f64_probability Math_exp features = fl (1 / fl (1 + Math_exp (- f64_score features)))"



text \<open>
  The first occurrence of a string in a text, as the specification words it: the string
  stands at the position and at no position before it.
\<close>

definition spec_firstOccurrence :: "string \<Rightarrow> string \<Rightarrow> nat \<Rightarrow> bool" where
  "spec_firstOccurrence text m i =
     (take (length m) (drop i text) = m \<and> (\<forall>j < i. take (length m) (drop j text) \<noteq> m))"

text \<open>
  Match order: every match lies to the right of the match before it.
\<close>

definition spec_leftToRight :: "(nat \<times> nat) list \<Rightarrow> bool" where
  "spec_leftToRight sp = sorted_wrt (\<lambda>(b, e) (b', e'). b \<le> e \<and> e \<le> b' \<and> b < b') sp"

section \<open>Properties of binary64 rounding\<close>

lemma roundTiesToEven_cases:
  "roundTiesToEven y = \<lfloor>y\<rfloor> \<or> roundTiesToEven y = \<lfloor>y\<rfloor> + 1"
  by (simp add: roundTiesToEven_def Let_def)

lemma roundTiesToEven_error: "\<bar>of_int (roundTiesToEven y) - y\<bar> \<le> 1 / 2"
  unfolding roundTiesToEven_def Let_def by (auto simp: abs_if) linarith+

lemma roundTiesToEven_le: "y \<le> of_int k \<Longrightarrow> roundTiesToEven y \<le> k"
proof -
  assume y: "y \<le> of_int k"
  show ?thesis
  proof (cases "y = of_int k")
    case True
    then show ?thesis by (simp add: roundTiesToEven_def)
  next
    case False
    with y have "y < of_int k" by simp
    then have "\<lfloor>y\<rfloor> < k" by (simp add: floor_less_iff)
    with roundTiesToEven_cases [of y] show ?thesis by auto
  qed
qed

lemma roundTiesToEven_ge: "of_int k \<le> y \<Longrightarrow> k \<le> roundTiesToEven y"
proof -
  assume "of_int k \<le> y"
  then have "k \<le> \<lfloor>y\<rfloor>" by (simp add: le_floor_iff)
  with roundTiesToEven_cases [of y] show ?thesis by auto
qed



lemma exponent_unique:
  assumes "2 powr of_int e \<le> \<bar>x\<bar>" "\<bar>x\<bar> < 2 powr of_int (e + 1)"
  shows "\<lfloor>log 2 \<bar>x\<bar>\<rfloor> = e"
proof -
  have pos: "0 < \<bar>x\<bar>" using assms(1) by (smt (verit) powr_gt_zero)
  have "of_int e \<le> log 2 \<bar>x\<bar>"
    using assms(1) pos by (simp add: le_log_iff)
  moreover have "log 2 \<bar>x\<bar> < of_int e + 1"
    using assms(2) pos by (simp add: log_less_iff)
  ultimately show ?thesis by (intro floor_unique) auto
qed

lemma fl_eval:
  assumes "2 powr of_int e \<le> \<bar>x\<bar>" "\<bar>x\<bar> < 2 powr of_int (e + 1)"
  shows "fl x = sgn x * of_int (roundTiesToEven (\<bar>x\<bar> / 2 powr of_int (e - 52))) * 2 powr of_int (e - 52)"
proof -
  have "x \<noteq> 0" using assms(1) by (smt (verit) powr_gt_zero abs_zero)
  then show ?thesis
    unfolding fl_def Let_def exponent_unique [OF assms] by simp
qed

lemma exponent_bounds:
  assumes "x \<noteq> 0"
  shows "2 powr of_int \<lfloor>log 2 \<bar>x\<bar>\<rfloor> \<le> \<bar>x\<bar>" "\<bar>x\<bar> < 2 powr of_int (\<lfloor>log 2 \<bar>x\<bar>\<rfloor> + 1)"
proof -
  have pos: "0 < \<bar>x\<bar>" using assms by simp
  then have id: "2 powr log 2 \<bar>x\<bar> = \<bar>x\<bar>" by simp
  have "2 powr of_int \<lfloor>log 2 \<bar>x\<bar>\<rfloor> \<le> 2 powr log 2 \<bar>x\<bar>"
    by (rule powr_mono) simp_all
  then show "2 powr of_int \<lfloor>log 2 \<bar>x\<bar>\<rfloor> \<le> \<bar>x\<bar>"
    unfolding id .
  have "log 2 \<bar>x\<bar> < of_int (\<lfloor>log 2 \<bar>x\<bar>\<rfloor> + 1)" by linarith
  then have "2 powr log 2 \<bar>x\<bar> < 2 powr of_int (\<lfloor>log 2 \<bar>x\<bar>\<rfloor> + 1)"
    by (rule powr_less_mono) simp
  then show "\<bar>x\<bar> < 2 powr of_int (\<lfloor>log 2 \<bar>x\<bar>\<rfloor> + 1)"
    unfolding id .
qed

text \<open>The rounded value stays in the binade of the argument.\<close>

lemma fl_pos_bounds:
  assumes "0 < x"
  shows "2 powr of_int \<lfloor>log 2 x\<rfloor> \<le> fl x" "fl x \<le> 2 powr of_int (\<lfloor>log 2 x\<rfloor> + 1)"
proof -
  define e where "e = \<lfloor>log 2 x\<rfloor>"
  define u :: real where "u = 2 powr of_int (e - 52)"
  have u: "0 < u" by (simp add: u_def)
  have ax: "\<bar>x\<bar> = x" using assms by simp
  from exponent_bounds [of x] assms
  have lo: "2 powr of_int e \<le> x" and hi: "x < 2 powr of_int (e + 1)"
    by (simp_all add: e_def)
  have "(2::real) powr of_int e = 2 powr (52 + of_int (e - 52))" by simp
  also have "\<dots> = 2 powr 52 * 2 powr of_int (e - 52)" by (rule powr_add)
  finally have p52: "2 powr of_int e = 2 ^ 52 * u"
    unfolding u_def by simp
  have "real_of_int (e + 1) = 53 + of_int (e - 52)" by simp
  then have "(2::real) powr of_int (e + 1) = 2 powr (53 + of_int (e - 52))" by (simp only:)
  also have "\<dots> = 2 powr 53 * 2 powr of_int (e - 52)" by (rule powr_add)
  finally have p53: "2 powr of_int (e + 1) = 2 ^ 53 * u"
    unfolding u_def by simp
  have flx: "fl x = of_int (roundTiesToEven (x / u)) * u"
    using assms by (simp add: fl_def Let_def e_def u_def)
  have "of_int (2 ^ 52) \<le> x / u"
    using lo u unfolding p52 by (simp add: field_simps)
  then have "2 ^ 52 \<le> roundTiesToEven (x / u)" by (rule roundTiesToEven_ge)
  then have "(2 ^ 52 :: real) \<le> of_int (roundTiesToEven (x / u))"
    by (metis of_int_le_iff of_int_numeral of_int_power)
  then show "2 powr of_int \<lfloor>log 2 x\<rfloor> \<le> fl x"
    unfolding e_def [symmetric] flx p52 using u by simp
  have "x / u \<le> of_int (2 ^ 53)"
    using hi u unfolding p53 by (simp add: field_simps)
  then have "roundTiesToEven (x / u) \<le> 2 ^ 53" by (rule roundTiesToEven_le)
  then have "of_int (roundTiesToEven (x / u)) \<le> (2 ^ 53 :: real)"
    by (metis of_int_le_iff of_int_numeral of_int_power)
  then show "fl x \<le> 2 powr of_int (\<lfloor>log 2 x\<rfloor> + 1)"
    unfolding e_def [symmetric] flx p53 using u by simp
qed

lemma fl_zero [simp]: "fl 0 = 0"
  by (simp add: fl_def)

lemma fl_nonneg: "0 \<le> x \<Longrightarrow> 0 \<le> fl x"
proof (cases "x = 0")
  case True
  then show ?thesis by simp
next
  case False
  assume "0 \<le> x"
  with False have "0 < x" by simp
  from fl_pos_bounds(1) [OF this] show ?thesis
    by (smt (verit) powr_gt_zero)
qed

lemma fl_pos: "0 < x \<Longrightarrow> 0 < fl x"
  using fl_pos_bounds(1) [of x] by (smt (verit) powr_gt_zero)


lemma fl_minus: "fl (- x) = - fl x"
  by (simp add: fl_def Let_def sgn_minus)

lemma fl_nonpos: "x \<le> 0 \<Longrightarrow> fl x \<le> 0"
  using fl_nonneg [of "- x"] by (simp add: fl_minus)

lemma roundTiesToEven_of_int [simp]: "roundTiesToEven (of_int k) = k"
  by (simp add: roundTiesToEven_def)

lemma fl_power2: "fl (2 powr of_int k) = 2 powr of_int k"
proof -
  have lo: "2 powr of_int k \<le> \<bar>2 powr of_int k :: real\<bar>" by simp
  have hi: "\<bar>2 powr of_int k :: real\<bar> < 2 powr of_int (k + 1)"
    by (simp add: powr_add)
  have "(2::real) powr of_int k = 2 powr (52 + of_int (k - 52))" by simp
  also have "\<dots> = 2 powr 52 * 2 powr of_int (k - 52)" by (rule powr_add)
  finally have q: "(2::real) powr of_int k / 2 powr of_int (k - 52) = of_int (2 ^ 52)"
    by simp
  have "fl (2 powr of_int k) = of_int (roundTiesToEven (of_int (2 ^ 52))) * 2 powr of_int (k - 52)"
    unfolding fl_eval [OF lo hi] by (simp only: abs_of_pos powr_gt_zero sgn_pos q mult_1)
  also have "\<dots> = of_int (2 ^ 52) * 2 powr of_int (k - 52)"
    by (simp only: roundTiesToEven_of_int)
  also have "\<dots> = 2 powr of_int k"
    using q by (simp add: field_simps)
  finally show ?thesis .
qed


lemma fl_le_power2:
  assumes "x \<le> 2 powr of_int k"
  shows "fl x \<le> 2 powr of_int k"
proof (cases "x \<le> 0")
  case True
  then have "fl x \<le> 0" by (rule fl_nonpos)
  then show ?thesis by (smt (verit) powr_gt_zero)
next
  case False
  then have pos: "0 < x" by simp
  show ?thesis
  proof (cases "x = 2 powr of_int k")
    case True
    then show ?thesis by (simp add: fl_power2)
  next
    case ne: False
    with assms have "x < 2 powr of_int k" by simp
    then have "log 2 x < of_int k"
      using pos by (simp add: log_less_iff)
    then have "\<lfloor>log 2 x\<rfloor> < k" by (simp only: floor_less_iff)
    then have "\<lfloor>log 2 x\<rfloor> + 1 \<le> k" by simp
    then have "(2::real) powr of_int (\<lfloor>log 2 x\<rfloor> + 1) \<le> 2 powr of_int k"
      by (intro powr_mono) simp_all
    with fl_pos_bounds(2) [OF pos] show ?thesis by linarith
  qed
qed

lemma fl_ge_power2:
  assumes "2 powr of_int k \<le> x"
  shows "2 powr of_int k \<le> fl x"
proof -
  have pos: "0 < x" using assms by (smt (verit) powr_gt_zero)
  have "of_int k \<le> log 2 x"
    using assms pos by (simp add: le_log_iff)
  then have "k \<le> \<lfloor>log 2 x\<rfloor>" by (simp add: le_floor_iff)
  then have "(2::real) powr of_int k \<le> 2 powr of_int \<lfloor>log 2 x\<rfloor>"
    by (intro powr_mono) simp_all
  with fl_pos_bounds(1) [OF pos] show ?thesis by linarith
qed

lemma fl_le_one: "x \<le> 1 \<Longrightarrow> fl x \<le> 1"
  using fl_le_power2 [of x 0] by simp

lemma fl_ge_one: "1 \<le> x \<Longrightarrow> 1 \<le> fl x"
  using fl_ge_power2 [of 0 x] by simp

lemma fl_le_half: "x \<le> 1 / 2 \<Longrightarrow> fl x \<le> 1 / 2"
  using fl_le_power2 [of x "- 1"] by (simp add: powr_minus)

lemma powr_neg_nat: "(2::real) powr of_int (- int n) = 1 / 2 ^ n"
  by (simp add: powr_minus powr_realpow field_simps)





lemma fl_error:
  assumes "x \<noteq> 0"
  shows "\<bar>fl x - x\<bar> \<le> 2 powr of_int (\<lfloor>log 2 \<bar>x\<bar>\<rfloor> - 52) / 2"
proof -
  define u :: real where "u = 2 powr of_int (\<lfloor>log 2 \<bar>x\<bar>\<rfloor> - 52)"
  have u: "0 < u" by (simp add: u_def)
  define k where "k = roundTiesToEven (\<bar>x\<bar> / u)"
  have flx: "fl x = sgn x * of_int k * u"
    using assms by (simp add: fl_def Let_def u_def k_def)
  have "\<bar>of_int k - \<bar>x\<bar> / u\<bar> \<le> 1 / 2"
    unfolding k_def by (rule roundTiesToEven_error)
  then have "\<bar>of_int k - \<bar>x\<bar> / u\<bar> * u \<le> 1 / 2 * u"
    using u by (intro mult_right_mono) simp_all
  moreover have "\<bar>of_int k - \<bar>x\<bar> / u\<bar> * u = \<bar>of_int k * u - \<bar>x\<bar>\<bar>"
  proof -
    have "\<bar>of_int k - \<bar>x\<bar> / u\<bar> * u = \<bar>(of_int k - \<bar>x\<bar> / u) * u\<bar>"
      using u by (simp add: abs_mult)
    also have "(of_int k - \<bar>x\<bar> / u) * u = of_int k * u - \<bar>x\<bar>"
      using u by (simp add: field_simps)
    finally show ?thesis .
  qed
  moreover have "\<bar>fl x - x\<bar> = \<bar>of_int k * u - \<bar>x\<bar>\<bar>"
    unfolding flx using assms by (cases "0 < x") (simp_all add: sgn_if)
  ultimately show ?thesis unfolding u_def [symmetric] by simp
qed

lemma fl_error_unit:
  assumes "\<bar>x\<bar> \<le> 1"
  shows "\<bar>fl x - x\<bar> \<le> 1 / 2 ^ 53"
proof (cases "x = 0")
  case True
  then show ?thesis by simp
next
  case False
  then have "log 2 \<bar>x\<bar> \<le> 0" using assms by simp
  then have "\<lfloor>log 2 \<bar>x\<bar>\<rfloor> \<le> 0" by (simp add: floor_le_iff)
  then have "(2::real) powr of_int (\<lfloor>log 2 \<bar>x\<bar>\<rfloor> - 52) \<le> 2 powr of_int (- int 52)"
    by (intro powr_mono) simp_all
  also have "\<dots> = 1 / 2 ^ 52" by (rule powr_neg_nat)
  finally have "(2::real) powr of_int (\<lfloor>log 2 \<bar>x\<bar>\<rfloor> - 52) / 2 \<le> 1 / 2 ^ 53" by simp
  with fl_error [OF False] show ?thesis by linarith
qed









section \<open>Properties of utils/helpers.ts\<close>










text \<open>
  C9. Neither calculateMedian nor calculatePercentile modifies the caller's array: every
  array that was in the store before the call, the argument among them, holds the same
  elements in the same order afterwards. Both sort a fresh copy.
\<close>

theorem helpers_leave_input_unchanged:
  "take (length h) (snd (calculateMedian h a)) = h
   \<and> take (length h) (snd (calculatePercentile h a p)) = h
   \<and> (a < length h \<longrightarrow>
        snd (calculateMedian h a) ! a = h ! a \<and> snd (calculatePercentile h a p) ! a = h ! a)"
proof -
  have m: "take (length h) (snd (calculateMedian h a)) = h"
    by (simp add: calculateMedian_def spread_copy_def sort_in_place_def Let_def)
  have q: "take (length h) (snd (calculatePercentile h a p)) = h"
    by (simp add: calculatePercentile_def spread_copy_def sort_in_place_def Let_def)
  have "snd (calculateMedian h a) ! a = take (length h) (snd (calculateMedian h a)) ! a"
    if "a < length h" using that by simp
  moreover
  have "snd (calculatePercentile h a p) ! a
          = take (length h) (snd (calculatePercentile h a p)) ! a"
    if "a < length h" using that by simp
  ultimately show ?thesis
    using m q by simp
qed

theorem helpers_leave_input_unchanged_witness:
  "(0::nat) < length [[3, 1, 2 :: real]]
   \<and> snd (calculateMedian [[3, 1, 2]] 0) ! 0 = [3, 1, 2]
   \<and> snd (calculatePercentile [[3, 1, 2]] 0 95) ! 0 = [3, 1, 2]
   \<and> fst (calculateMedian [[3, 1, 2]] 0) = Some 2"
  using helpers_leave_input_unchanged [of "[[3, 1, 2]]" 0 95]
  by (simp add: calculateMedian_def spread_copy_def sort_in_place_def at_index_def)

section \<open>Properties of services/aiService.ts\<close>

subsection \<open>classifyText\<close>

lemma foldl_pickTop_last_highest:
  "\<exists>i < length (x # xs).
      foldl pickTop x xs = (x # xs) ! i
    \<and> (\<forall>j < length (x # xs). cs_score ((x # xs) ! j) \<le> cs_score ((x # xs) ! i))
    \<and> (\<forall>j < length (x # xs). i < j \<longrightarrow> cs_score ((x # xs) ! j) < cs_score ((x # xs) ! i))"
proof (induction xs rule: rev_induct)
  case Nil
  show ?case by simp
next
  case (snoc y xs)
  then obtain i where i: "i < length (x # xs)"
    and top: "foldl pickTop x xs = (x # xs) ! i"
    and hi: "\<forall>j < length (x # xs). cs_score ((x # xs) ! j) \<le> cs_score ((x # xs) ! i)"
    and later: "\<forall>j < length (x # xs). i < j \<longrightarrow> cs_score ((x # xs) ! j) < cs_score ((x # xs) ! i)"
    by blast
  let ?n = "length (x # xs)"
  have old: "(x # xs @ [y]) ! j = (x # xs) ! j" if "j < ?n" for j
    using that nth_append [of "x # xs" "[y]" j] by simp
  have new: "(x # xs @ [y]) ! ?n = y"
    using nth_append_length [of "x # xs" y "[]"] by simp
  have split: "j < ?n \<or> j = ?n" if "j < length (x # xs @ [y])" for j
    using that by auto
  show ?case
  proof (cases "cs_score ((x # xs) ! i) > cs_score y")
    case True
    then have res: "foldl pickTop x (xs @ [y]) = (x # xs @ [y]) ! i"
      using top old [OF i] by (simp add: pickTop_def)
    have "cs_score ((x # xs @ [y]) ! j) \<le> cs_score ((x # xs @ [y]) ! i)"
      if "j < length (x # xs @ [y])" for j
      using split [OF that] hi True old i new by (metis less_imp_le)
    moreover have "cs_score ((x # xs @ [y]) ! j) < cs_score ((x # xs @ [y]) ! i)"
      if "j < length (x # xs @ [y])" "i < j" for j
      using split [OF that(1)] that(2) later True old i new by metis
    ultimately show ?thesis
      using res i by (intro exI [of _ i]) simp
  next
    case False
    then have res: "foldl pickTop x (xs @ [y]) = (x # xs @ [y]) ! ?n"
      using top new by (simp add: pickTop_def)
    have "cs_score ((x # xs @ [y]) ! j) \<le> cs_score ((x # xs @ [y]) ! ?n)"
      if "j < length (x # xs @ [y])" for j
    proof -
      from split [OF that] show ?thesis
      proof
        assume j: "j < ?n"
        then have "cs_score ((x # xs) ! j) \<le> cs_score ((x # xs) ! i)" using hi by blast
        also have "\<dots> \<le> cs_score y" using False by simp
        finally show ?thesis using old [OF j] new by simp
      next
        assume "j = ?n"
        then show ?thesis by simp
      qed
    qed
    moreover have "cs_score ((x # xs @ [y]) ! j) < cs_score ((x # xs @ [y]) ! ?n)"
      if "j < length (x # xs @ [y])" "?n < j" for j
      using that by simp
    ultimately show ?thesis
      using res by (intro exI [of _ ?n]) simp
  qed
qed

lemma categoryScores_names:
  "map cs_category (map (scoreCategory lowered) categories)
     = [''technology'', ''business'', ''science'', ''entertainment'', ''sports'']"
  by (simp add: categories_def scoreCategory_def Let_def)


lemma startsWith_iff: "startsWith s k \<longleftrightarrow> (\<exists>q. s = k @ q)"
  by (induction s k rule: startsWith.induct) auto

lemma includes_str_iff: "includes_str s k \<longleftrightarrow> (\<exists>p q. s = p @ k @ q)"
proof (induction s)
  case Nil
  show ?case by (auto simp: startsWith_iff)
next
  case (Cons c cs)
  show ?case
  proof
    assume "includes_str (c # cs) k"
    then consider "startsWith (c # cs) k" | "includes_str cs k" by auto
    then show "\<exists>p q. c # cs = p @ k @ q"
    proof cases
      case 1
      then obtain q where "c # cs = [] @ k @ q" by (auto simp: startsWith_iff)
      then show ?thesis by blast
    next
      case 2
      then obtain p q where "cs = p @ k @ q" using Cons.IH by blast
      then have "c # cs = (c # p) @ k @ q" by simp
      then show ?thesis by blast
    qed
  next
    assume "\<exists>p q. c # cs = p @ k @ q"
    then obtain p q where pq: "c # cs = p @ k @ q" by blast
    show "includes_str (c # cs) k"
    proof (cases p)
      case Nil
      with pq have "startsWith (c # cs) k" by (auto simp: startsWith_iff)
      then show ?thesis by simp
    next
      case (Cons d ps)
      with pq have "cs = ps @ k @ q" by simp
      then have "includes_str cs k" using Cons.IH by blast
      then show ?thesis by simp
    qed
  qed
qed

lemma foldl_count:
  "foldl (\<lambda>acc k. acc + (if P k then 1 else 0)) a ks = a + length (filter P ks)"
  by (induction ks arbitrary: a) simp_all

lemma scoreCategory_score:
  "cs_score (scoreCategory lowered entry)
     = length (filter (\<lambda>k. \<exists>p q. lowered = p @ k @ q) (snd entry))"
  by (simp add: scoreCategory_def Let_def foldl_count includes_str_iff)

lemma categoryScores_scores:
  "map cs_score (map (scoreCategory lowered) categories)
     = map (\<lambda>(name, keywords). length (filter (\<lambda>k. \<exists>p q. lowered = p @ k @ q) keywords))
         categories"
  by (simp add: scoreCategory_score split_def)

text \<open>
  C1 (amended). For every text classifyText returns a result; the five category scores are
  listed in the order technology, business, science, entertainment, sports, the score of
  a category being the number of its keywords that occur as a substring of the lower-cased
  text; the winning category has a highest score, and among the categories of highest
  score it is the last one in that order: every later category has a strictly smaller
  score (a later category replaces the current winner whenever its score is greater or
  equal).
\<close>

theorem classifyText_winner_last_highest:
  "\<exists>r i. classifyText now t text = Inr r
     \<and> map cs_category (c_allScores r)
           = [''technology'', ''business'', ''science'', ''entertainment'', ''sports'']
     \<and> map cs_score (c_allScores r)
           = map (\<lambda>(name, keywords).
                    length (filter (\<lambda>k. \<exists>p q. toLowerCase text = p @ k @ q) keywords))
               categories
     \<and> i < 5
     \<and> c_category r = cs_category (c_allScores r ! i)
     \<and> c_confidence r = cs_confidence (c_allScores r ! i)
     \<and> (\<forall>j < 5. cs_score (c_allScores r ! j) \<le> cs_score (c_allScores r ! i))
     \<and> (\<forall>j < 5. i < j \<longrightarrow> cs_score (c_allScores r ! j) < cs_score (c_allScores r ! i))"
proof -
  define scores where "scores = map (scoreCategory (toLowerCase text)) categories"
  have len: "length scores = 5"
    by (simp add: scores_def categories_def)
  then obtain x xs where xs: "scores = x # xs"
    by (cases scores) auto
  from foldl_pickTop_last_highest [of x xs] obtain i where i: "i < length (x # xs)"
    and top: "foldl pickTop x xs = (x # xs) ! i"
    and hi: "\<forall>j < length (x # xs). cs_score ((x # xs) ! j) \<le> cs_score ((x # xs) ! i)"
    and later: "\<forall>j < length (x # xs). i < j \<longrightarrow> cs_score ((x # xs) ! j) < cs_score ((x # xs) ! i)"
    by blast
  define r where "r = \<lparr> c_category = cs_category (scores ! i),
                         c_confidence = cs_confidence (scores ! i),
                         c_allScores = scores,
                         c_processingTime = now (t + 1) - now t \<rparr>"
  have run: "classifyText now t text = Inr r"
    using top by (simp add: classifyText_def Let_def reduce1_def r_def xs scores_def [symmetric])
  have names: "map cs_category (c_allScores r)
           = [''technology'', ''business'', ''science'', ''entertainment'', ''sports'']"
    by (simp add: r_def scores_def categories_def scoreCategory_def Let_def)
  have sc: "map cs_score (c_allScores r)
           = map (\<lambda>(name, keywords).
                    length (filter (\<lambda>k. \<exists>p q. toLowerCase text = p @ k @ q) keywords))
               categories"
    unfolding r_def scores_def by (simp only: categoryScores_scores ClassificationResult.simps)
  have i5: "i < 5" using i len xs by simp
  have h: "\<forall>j < 5. cs_score (c_allScores r ! j) \<le> cs_score (c_allScores r ! i)"
    using hi len xs by (simp add: r_def)
  have l: "\<forall>j < 5. i < j \<longrightarrow> cs_score (c_allScores r ! j) < cs_score (c_allScores r ! i)"
    using later len xs by (simp add: r_def)
  have c: "c_category r = cs_category (c_allScores r ! i)"
    and d: "c_confidence r = cs_confidence (c_allScores r ! i)"
    by (simp_all add: r_def)
  show ?thesis
    by (rule exI [of _ r], rule exI [of _ i]) (intro conjI run names sc i5 c d h l)
qed

lemma classifyText_game:
  "classifyText int 0 ''game'' =
     Inr \<lparr> c_category = ''sports'', c_confidence = 3 / 10,
           c_allScores =
             [\<lparr> cs_category = ''technology'', cs_score = 0, cs_confidence = 1 / 10 \<rparr>,
              \<lparr> cs_category = ''business'', cs_score = 0, cs_confidence = 1 / 10 \<rparr>,
              \<lparr> cs_category = ''science'', cs_score = 0, cs_confidence = 1 / 10 \<rparr>,
              \<lparr> cs_category = ''entertainment'', cs_score = 1, cs_confidence = 3 / 10 \<rparr>,
              \<lparr> cs_category = ''sports'', cs_score = 1, cs_confidence = 3 / 10 \<rparr>],
           c_processingTime = 1 \<rparr>"
  by code_simp

theorem classifyText_winner_last_highest_witness:
  "map_sum id c_category (classifyText int 0 ''game'') = Inr ''sports''
   \<and> map_sum id (map cs_score \<circ> c_allScores) (classifyText int 0 ''game'') = Inr [0, 0, 0, 1, 1]"
proof -
  from classifyText_winner_last_highest [of int 0 "''game''"]
  obtain r i where run: "classifyText int 0 ''game'' = Inr r"
    and i: "i < 5"
    and cat: "c_category r = cs_category (c_allScores r ! i)"
    and hi: "\<forall>j < 5. cs_score (c_allScores r ! j) \<le> cs_score (c_allScores r ! i)"
    and later: "\<forall>j < 5. i < j \<longrightarrow> cs_score (c_allScores r ! j) < cs_score (c_allScores r ! i)"
    by blast
  from run have all: "c_allScores r =
             [\<lparr> cs_category = ''technology'', cs_score = 0, cs_confidence = 1 / 10 \<rparr>,
              \<lparr> cs_category = ''business'', cs_score = 0, cs_confidence = 1 / 10 \<rparr>,
              \<lparr> cs_category = ''science'', cs_score = 0, cs_confidence = 1 / 10 \<rparr>,
              \<lparr> cs_category = ''entertainment'', cs_score = 1, cs_confidence = 3 / 10 \<rparr>,
              \<lparr> cs_category = ''sports'', cs_score = 1, cs_confidence = 3 / 10 \<rparr>]"
    by (auto simp: classifyText_game)
  from i consider "i = 0" | "i = 1" | "i = 2" | "i = 3" | "i = 4" by linarith
  then have "i = 4"
  proof cases
    case 1 with hi [rule_format, of 4] all show ?thesis by simp
  next
    case 2 with hi [rule_format, of 4] all show ?thesis by simp
  next
    case 3 with hi [rule_format, of 4] all show ?thesis by simp
  next
    case 4 with later [rule_format, of 4] all show ?thesis by simp
  next
    case 5 then show ?thesis .
  qed
  with cat all have "c_category r = ''sports''" by simp
  with run all show ?thesis by simp
qed

text \<open>
  C1 as stated fails: on the text \<open>game\<close> entertainment and sports tie with score 1; the
  code answers sports, the first category of highest score is entertainment.
\<close>

theorem classifyText_first_on_tie_counterexample:
  "map_sum id c_category (classifyText int 0 ''game'') = Inr ''sports''
   \<and> map_sum id (spec_firstHighest \<circ> c_allScores) (classifyText int 0 ''game'')
        = Inr (Inr ''entertainment'')"
  by (simp add: classifyText_game spec_firstHighest_def reduce1_def spec_pickFirst_def)

subsection \<open>analyzeSentiment\<close>

lemma split_on_no_sep: "\<forall>c \<in> set w. \<not> sep c \<Longrightarrow> split_on sep w = [w]"
  by (induction w) auto

lemma split_on_append_sep:
  "\<forall>c \<in> set w. \<not> sep c \<Longrightarrow> sep d \<Longrightarrow> split_on sep (w @ d # rest) = w # split_on sep rest"
  by (induction w) auto

lemma split_on_join:
  assumes "ws \<noteq> []" and "\<forall>w \<in> set ws. d \<notin> set w"
  shows "split_on (\<lambda>c. c = d) (join [d] ws) = ws"
  using assms
proof (induction "[d]" ws rule: join.induct)
  case 1
  then show ?case by simp
next
  case (2 x)
  then have "\<forall>c \<in> set x. \<not> (c = d)" by auto
  then show ?case by (simp add: split_on_no_sep [of x "\<lambda>c. c = d"])
next
  case (3 x y ys)
  have "split_on (\<lambda>c. c = d) (x @ d # join [d] (y # ys)) = x # split_on (\<lambda>c. c = d) (join [d] (y # ys))"
    using "3.prems" by (intro split_on_append_sep) auto
  with 3 show ?case by simp
qed

lemma foldl_countWord:
  "foldl countWord (p, n) ws =
     (p + int (length (filter (\<lambda>w. w \<in> set positiveWords) ws)),
      n + int (length (filter (\<lambda>w. w \<in> set negativeWords) ws)))"
  by (induction ws arbitrary: p n) (simp_all add: countWord_def)

text \<open>
  C3 (amended). analyzeSentiment lower-cases the text and splits it at every space
  character (and only there: \<open>ws\<close> is the one non-empty list of space-free words whose
  join with single spaces is the lower-cased text, so consecutive spaces give empty
  words, and tabs or newlines do not separate words). With \<open>p\<close> and \<open>n\<close> the numbers of
  words in the positive and the negative word list and score \<open>p - n\<close>: label positive with
  confidence \<open>min 0.9 (0.5 + 0.1 * score)\<close> when the score is positive, negative with
  \<open>min 0.9 (0.5 + 0.1 * |score|)\<close> when it is negative, neutral with 0.6 otherwise; the
  counts reported are \<open>p\<close>, \<open>n\<close> and \<open>length ws - p - n\<close>.
\<close>

theorem analyzeSentiment_counts_space_separated_words:
  assumes "ws \<noteq> []" and "\<forall>w \<in> set ws. CHR '' '' \<notin> set w"
    and "join '' '' ws = toLowerCase text"
    and "p = int (length (filter (\<lambda>w. w \<in> set positiveWords) ws))"
    and "n = int (length (filter (\<lambda>w. w \<in> set negativeWords) ws))"
  shows "analyzeSentiment now t text =
     Inr \<lparr> s_sentiment = (if p - n > 0 then ''positive'' else if p - n < 0 then ''negative'' else ''neutral''),
           s_confidence = (if p - n > 0 then min 0.9 (0.5 + 0.1 * real_of_int (p - n))
                           else if p - n < 0 then min 0.9 (0.5 + 0.1 * real_of_int \<bar>p - n\<bar>)
                           else 0.6),
           s_positive = p, s_negative = n,
           s_neutral = int (length ws) - p - n,
           s_processingTime = now (t + 1) - now t \<rparr>"
proof -
  have words: "split_on (\<lambda>c. c = CHR '' '') (toLowerCase text) = ws"
    using split_on_join [OF assms(1,2)] assms(3) by simp
  have counts: "foldl countWord (0, 0) ws = (p, n)"
    by (simp add: foldl_countWord assms(4,5))
  show ?thesis
    unfolding analyzeSentiment_def words Let_def counts by (simp add: mult.commute)
qed


lemma lower_great_bad:
  "toLowerCase ''Great  bad great'' = ''great  bad great''"
  by code_simp

theorem analyzeSentiment_counts_space_separated_words_witness:
  "analyzeSentiment int 0 ''Great  bad great'' =
     Inr \<lparr> s_sentiment = ''positive'', s_confidence = 3 / 5, s_positive = 2, s_negative = 1,
           s_neutral = 1, s_processingTime = 1 \<rparr>"
proof -
  have a: "[''great'', [], ''bad'', ''great''] \<noteq> []" by simp
  have b: "\<forall>w \<in> set [''great'', [], ''bad'', ''great'']. CHR '' '' \<notin> set w" by simp
  have c: "join '' '' [''great'', [], ''bad'', ''great''] = toLowerCase ''Great  bad great''"
    by (simp add: lower_great_bad)
  have d: "(2::int) = int (length (filter (\<lambda>w. w \<in> set positiveWords) [''great'', [], ''bad'', ''great'']))"
    by (simp add: positiveWords_def)
  have e: "(1::int) = int (length (filter (\<lambda>w. w \<in> set negativeWords) [''great'', [], ''bad'', ''great'']))"
    by (simp add: negativeWords_def)
  from analyzeSentiment_counts_space_separated_words [OF a b c d e, of int 0]
  show ?thesis by simp
qed

text \<open>
  C3 as stated fails: a newline is whitespace, but the code does not split there. On
  \<open>good\<newline>day\<close> the code sees the single word \<open>good\<newline>day\<close> and answers neutral with
  no positive word; split on whitespace, the word \<open>good\<close> counts and the label is positive.
\<close>

lemma analyzeSentiment_newline:
  "analyzeSentiment int 0 ''good\<newline>day'' =
     Inr \<lparr> s_sentiment = ''neutral'', s_confidence = 3 / 5, s_positive = 0, s_negative = 0,
           s_neutral = 1, s_processingTime = 1 \<rparr>"
  by code_simp

lemma spec_analyzeSentiment_newline:
  "spec_analyzeSentiment ''good\<newline>day'' = (''positive'', 3 / 5, 1, 0, 1)"
  by code_simp

theorem analyzeSentiment_whitespace_counterexample:
  "map_sum id (\<lambda>r. (s_sentiment r, s_confidence r, s_positive r, s_negative r, s_neutral r))
      (analyzeSentiment int 0 ''good\<newline>day'')
     = Inr (''neutral'', 3 / 5, 0, 0, 1)
   \<and> spec_analyzeSentiment ''good\<newline>day'' = (''positive'', 3 / 5, 1, 0, 1)"
  by (simp add: analyzeSentiment_newline spec_analyzeSentiment_newline)


subsection \<open>summarizeText\<close>

lemma trim_all_white:
  assumes "\<forall>c \<in> set s. isWhiteSpace c"
  shows "trim s = []"
proof -
  from assms have d: "dropWhile isWhiteSpace s = []" by (induction s) auto
  show ?thesis unfolding trim_def d by simp
qed

lemma trim_empty_all_white:
  assumes "trim s = []"
  shows "\<forall>c \<in> set s. isWhiteSpace c"
proof -
  from assms have "dropWhile isWhiteSpace (rev (dropWhile isWhiteSpace s)) = []"
    by (simp add: trim_def)
  then have all: "\<forall>c \<in> set (dropWhile isWhiteSpace s). isWhiteSpace c"
    by simp
  have "dropWhile isWhiteSpace s = []"
  proof (rule ccontr)
    assume ne: "dropWhile isWhiteSpace s \<noteq> []"
    then have "\<not> isWhiteSpace (hd (dropWhile isWhiteSpace s))"
      by (rule hd_dropWhile)
    moreover have "hd (dropWhile isWhiteSpace s) \<in> set (dropWhile isWhiteSpace s)"
      using ne by simp
    ultimately show False using all by blast
  qed
  then show ?thesis by simp
qed

lemma split_on_covers: "c \<in> set s \<Longrightarrow> \<not> sep c \<Longrightarrow> \<exists>w \<in> set (split_on sep s). c \<in> set w"
proof (induction s)
  case Nil
  then show ?case by simp
next
  case (Cons d s)
  show ?case
  proof (cases "sep d")
    case True
    with Cons show ?thesis by auto
  next
    case False
    obtain w ws where sp: "split_on sep s = w # ws"
      by (cases "split_on sep s") (auto split: if_splits list.splits elim: split_on.elims)
    show ?thesis
    proof (cases "c = d")
      case True
      with False sp show ?thesis by simp
    next
      case ne: False
      with Cons.prems have "c \<in> set s" by simp
      from Cons.IH [OF this Cons.prems(2)] obtain v where "v \<in> set (w # ws)" "c \<in> set v"
        using sp by auto
      with False sp show ?thesis by auto
    qed
  qed
qed

lemma split_runs_chars:
  "w \<in> set (split_runs sep s) \<Longrightarrow> c \<in> set w \<Longrightarrow> c \<in> set s \<and> \<not> sep c"
proof (induction sep s arbitrary: w rule: split_runs.induct)
  case (1 sep)
  then show ?case by simp
next
  case (2 sep d cs)
  show ?case
  proof (cases "sep d")
    case True
    with "2.prems" have "w \<in> set (split_runs sep (dropWhile sep cs))" by auto
    from "2.IH"(1) [OF True this "2.prems"(2)] show ?thesis
      by (auto dest: set_dropWhileD)
  next
    case False
    show ?thesis
    proof (cases "split_runs sep cs")
      case Nil
      with False "2.prems" show ?thesis by auto
    next
      case (Cons v vs)
      with False "2.prems" have "w = d # v \<or> w \<in> set vs" by auto
      then show ?thesis
      proof
        assume w: "w = d # v"
        show ?thesis
        proof (cases "c = d")
          case True
          with False show ?thesis by simp
        next
          case ne: False
          with w "2.prems"(2) have "c \<in> set v" by simp
          moreover have "v \<in> set (split_runs sep cs)" using Cons by simp
          ultimately show ?thesis using "2.IH"(2) [OF False] by auto
        qed
      next
        assume "w \<in> set vs"
        then have "w \<in> set (split_runs sep cs)" using Cons by simp
        from "2.IH"(2) [OF False this "2.prems"(2)] show ?thesis by auto
      qed
    qed
  qed
qed


text \<open>
  C10. When every segment obtained by splitting the text at the characters \<open>.\<close>, \<open>!\<close> and
  \<open>?\<close> is empty or consists of whitespace only, summarizeText returns the summary \<open>.\<close>:
  no sentence survives the filter, so nothing is joined and only the final period remains.
\<close>

theorem summarizeText_only_punctuation_and_space:
  assumes "\<forall>w \<in> set (split_on isSentenceEnd text). trim w = []"
  shows "\<exists>r. summarizeText now t text maxTokens = Inr r \<and> sm_summary r = ''.''"
proof -
  have chars: "isSentenceEnd c \<or> isWhiteSpace c" if "c \<in> set text" for c
  proof (cases "isSentenceEnd c")
    case True
    then show ?thesis by simp
  next
    case False
    from split_on_covers [of c "text" isSentenceEnd, OF that False] obtain w
      where "w \<in> set (split_on isSentenceEnd text)" "c \<in> set w" by blast
    with assms trim_empty_all_white show ?thesis by blast
  qed
  have "trim w = []" if "w \<in> set (split_runs isSentenceEnd text)" for w
  proof (rule trim_all_white, rule ballI)
    fix c assume "c \<in> set w"
    from split_runs_chars [OF that this] chars show "isWhiteSpace c" by blast
  qed
  then have none: "filter (\<lambda>s. length (trim s) > 0) (split_runs isSentenceEnd text) = []"
    by (simp add: filter_empty_conv)
  show ?thesis
    unfolding summarizeText_def Let_def none by simp
qed

lemma split_on_blank_text:
  "split_on isSentenceEnd '' .! ?'' = ['' '', [], '' '', []]"
  by code_simp

lemma summarizeText_blank_text:
  "map_sum id sm_summary (summarizeText int 0 '' .! ?'' 100) = Inr ''.''"
  by code_simp

theorem summarizeText_only_punctuation_and_space_witness:
  "(trim '' '' = [] \<and> trim [] = [])
   \<and> map_sum id sm_summary (summarizeText int 0 '' .! ?'' 100) = Inr ''.''"
proof -
  have t: "trim '' '' = []" "trim [] = []"
    by (simp_all add: trim_def isWhiteSpace_def)
  have h: "\<forall>w \<in> set (split_on isSentenceEnd '' .! ?''). trim w = []"
    unfolding split_on_blank_text using t by simp
  from summarizeText_only_punctuation_and_space [OF h, of int 0 100] t
  show ?thesis by auto
qed

text \<open>
  C8. The maxTokens argument does not influence summarizeText: for any two values, and
  whatever the clock readings, the summary, both lengths and the compression ratio agree;
  with the same clock readings the whole results agree, also through processAnalysis,
  whether the option is given or absent.
\<close>

theorem summarizeText_ignores_maxTokens:
  "map_sum id (\<lambda>r. (sm_summary r, sm_originalLength r, sm_summaryLength r, sm_compressionRatio r))
       (summarizeText now t text m1)
   = map_sum id (\<lambda>r. (sm_summary r, sm_originalLength r, sm_summaryLength r, sm_compressionRatio r))
       (summarizeText now' t' text m2)
   \<and> summarizeText now t text m1 = summarizeText now t text m2
   \<and> processAnalysis now t
        \<lparr> rq_text = text, rq_analysisType = ''summarization'',
          rq_options = Some \<lparr> op_language = l, op_confidence = c, op_maxTokens = k1 \<rparr> \<rparr>
     = processAnalysis now t
        \<lparr> rq_text = text, rq_analysisType = ''summarization'',
          rq_options = Some \<lparr> op_language = l, op_confidence = c, op_maxTokens = k2 \<rparr> \<rparr>
   \<and> processAnalysis now t
        \<lparr> rq_text = text, rq_analysisType = ''summarization'',
          rq_options = Some \<lparr> op_language = l, op_confidence = c, op_maxTokens = k1 \<rparr> \<rparr>
     = processAnalysis now t
        \<lparr> rq_text = text, rq_analysisType = ''summarization'', rq_options = None \<rparr>"
proof -
  have a: "summarizeText now t text m1 = summarizeText now t text m2" for now t m1 m2
    by (simp add: summarizeText_def)
  have b: "map_sum id (\<lambda>r. (sm_summary r, sm_originalLength r, sm_summaryLength r, sm_compressionRatio r))
       (summarizeText now t text m1)
   = map_sum id (\<lambda>r. (sm_summary r, sm_originalLength r, sm_summaryLength r, sm_compressionRatio r))
       (summarizeText now' t' text m2)"
    by (simp add: summarizeText_def Let_def)
  have d: "dispatchAnalysis now t
        \<lparr> rq_text = text, rq_analysisType = ''summarization'', rq_options = opts \<rparr>
      = map_sum id SummaryData (summarizeText now t text 100)" for now t opts
    by (simp add: dispatchAnalysis_def summarizeText_def)
  have c: "processAnalysis now t
        \<lparr> rq_text = text, rq_analysisType = ''summarization'', rq_options = opts \<rparr>
     = processAnalysis now t
        \<lparr> rq_text = text, rq_analysisType = ''summarization'', rq_options = None \<rparr>" for opts
    by (simp add: processAnalysis_def d split: sum.splits)
  show ?thesis
    using a b c [of "Some \<lparr> op_language = l, op_confidence = c, op_maxTokens = k1 \<rparr>"]
      c [of "Some \<lparr> op_language = l, op_confidence = c, op_maxTokens = k2 \<rparr>"]
    by simp
qed

subsection \<open>extractEntities\<close>

lemma startsWith_take: "startsWith s k \<longleftrightarrow> take (length k) s = k"
proof
  assume "startsWith s k"
  then obtain q where "s = k @ q" by (auto simp: startsWith_iff)
  then show "take (length k) s = k" by simp
next
  assume "take (length k) s = k"
  then have "s = k @ drop (length k) s" by (metis append_take_drop_id)
  then show "startsWith s k" unfolding startsWith_iff by (rule exI)
qed

lemma indexOf_cases:
  "(indexOf s m = - 1 \<and> (\<forall>j \<le> length s. take (length m) (drop j s) \<noteq> m))
   \<or> (\<exists>i. indexOf s m = int i \<and> spec_firstOccurrence s m i)"
proof (induction s)
  case Nil
  show ?case by (auto simp: startsWith_take spec_firstOccurrence_def)
next
  case (Cons c cs)
  show ?case
  proof (cases "startsWith (c # cs) m")
    case True
    then have "indexOf (c # cs) m = int 0 \<and> spec_firstOccurrence (c # cs) m 0"
      by (simp add: startsWith_take spec_firstOccurrence_def)
    then show ?thesis by blast
  next
    case False
    then have nz: "take (length m) (c # cs) \<noteq> m" by (simp add: startsWith_take)
    from Cons.IH show ?thesis
    proof
      assume a: "indexOf cs m = - 1 \<and> (\<forall>j \<le> length cs. take (length m) (drop j cs) \<noteq> m)"
      have "\<forall>j \<le> length (c # cs). take (length m) (drop j (c # cs)) \<noteq> m"
      proof (intro allI impI)
        fix j assume "j \<le> length (c # cs)"
        then show "take (length m) (drop j (c # cs)) \<noteq> m"
          using a nz by (cases j) auto
      qed
      moreover have "indexOf (c # cs) m = - 1" using a False by (simp add: Let_def)
      ultimately show ?thesis by blast
    next
      assume "\<exists>i. indexOf cs m = int i \<and> spec_firstOccurrence cs m i"
      then obtain i where i: "indexOf cs m = int i" and f: "spec_firstOccurrence cs m i" by blast
      have "indexOf (c # cs) m = int (Suc i)" using i False by (simp add: Let_def)
      moreover have "spec_firstOccurrence (c # cs) m (Suc i)"
        unfolding spec_firstOccurrence_def
      proof (intro conjI allI impI)
        show "take (length m) (drop (Suc i) (c # cs)) = m"
          using f by (simp add: spec_firstOccurrence_def)
      next
        fix j assume "j < Suc i"
        then show "take (length m) (drop j (c # cs)) \<noteq> m"
          using f nz by (cases j) (auto simp: spec_firstOccurrence_def)
      qed
      ultimately show ?thesis by blast
    qed
  qed
qed

lemma indexOf_substring:
  assumes "b \<le> length text"
  shows "\<exists>i. indexOf text (substring text b e) = int i
             \<and> spec_firstOccurrence text (substring text b e) i"
proof -
  let ?m = "substring text b e"
  have "length ?m \<le> length (drop b text)" by (simp add: substring_def)
  then have "take (length ?m) (drop b text) = ?m"
    by (simp add: substring_def min_def)
  with assms have "\<not> (\<forall>j \<le> length text. take (length ?m) (drop j text) \<noteq> ?m)" by blast
  with indexOf_cases [of "text" ?m] show ?thesis by blast
qed

lemma spans_bounds: "(b, e) \<in> set (spans re s k) \<Longrightarrow> k \<le> b \<and> b \<le> length s \<and> b \<le> e"
proof (induction re s k rule: spans.induct)
  case (1 re s k)
  show ?case
  proof (cases "findFrom re s k")
    case None
    with "1.prems" show ?thesis by (simp add: spans.simps [of re s k])
  next
    case (Some x)
    obtain b0 e0 where x: "x = (b0, e0)" by (cases x)
    from Some x have ff: "findFrom re s k = Some (b0, e0)" by simp
    note fb = findFrom_bounds [OF ff]
    from "1.prems" ff have
      "(b, e) = (b0, e0) \<or> (b, e) \<in> set (spans re s (if e0 = b0 then e0 + 1 else e0))"
      by (simp add: spans.simps [of re s k])
    then show ?thesis
    proof
      assume "(b, e) = (b0, e0)"
      with fb show ?thesis by simp
    next
      assume "(b, e) \<in> set (spans re s (if e0 = b0 then e0 + 1 else e0))"
      from "1.IH" [OF Some x [symmetric] this] fb show ?thesis by (auto split: if_splits)
    qed
  qed
qed

lemma spans_leftToRight: "spec_leftToRight (spans re s k)"
proof (induction re s k rule: spans.induct)
  case (1 re s k)
  show ?case
  proof (cases "findFrom re s k")
    case None
    then show ?thesis by (simp add: spans.simps [of re s k] spec_leftToRight_def)
  next
    case (Some x)
    obtain b0 e0 where x: "x = (b0, e0)" by (cases x)
    from Some x have ff: "findFrom re s k = Some (b0, e0)" by simp
    note fb = findFrom_bounds [OF ff]
    let ?k = "if e0 = b0 then e0 + 1 else e0"
    have sp: "spans re s k = (b0, e0) # spans re s ?k"
      using ff by (simp add: spans.simps [of re s k])
    have tl: "spec_leftToRight (spans re s ?k)" by (rule "1.IH" [OF Some x [symmetric]])
    have "\<forall>(b', e') \<in> set (spans re s ?k). b0 \<le> e0 \<and> e0 \<le> b' \<and> b0 < b'"
    proof (intro ballI, clarify)
      fix b' e' assume "(b', e') \<in> set (spans re s ?k)"
      from spans_bounds [OF this] fb show "b0 \<le> e0 \<and> e0 \<le> b' \<and> b0 < b'"
        by (auto split: if_splits)
    qed
    with tl show ?thesis unfolding sp spec_leftToRight_def by auto
  qed
qed

lemma foldl_pushMatch:
  "foldl (pushMatch text type) entities ms
     = entities @ map (\<lambda>m. \<lparr> e_text = m, e_type = type, e_confidence = 0.9,
                             e_startIndex = indexOf text m,
                             e_endIndex = indexOf text m + int (length m) \<rparr>) ms"
  by (induction ms arbitrary: entities) (simp_all add: pushMatch_def)

lemma applyPattern_spans:
  "applyPattern text entities (type, pattern)
     = entities @ map (entityOf text type) (spans pattern text 0)"
  by (cases "spans pattern text 0")
     (simp_all add: applyPattern_def match_g_def foldl_pushMatch entityOf_def [abs_def]
        comp_def split_def pushMatch_def)

lemma foldl_applyPattern:
  "foldl (applyPattern text) entities ps
     = entities @ concat (map (\<lambda>(type, pattern). map (entityOf text type) (spans pattern text 0)) ps)"
proof (induction ps arbitrary: entities)
  case Nil
  show ?case by simp
next
  case (Cons p ps)
  obtain type pattern where p: "p = (type, pattern)" by (cases p)
  show ?case by (simp add: p Cons.IH applyPattern_spans)
qed

lemma entityOf_indices:
  assumes "fst sp \<le> length text"
  shows "e_confidence (entityOf text type sp) = 0.9
       \<and> 0 \<le> e_startIndex (entityOf text type sp)
       \<and> spec_firstOccurrence text (e_text (entityOf text type sp))
            (nat (e_startIndex (entityOf text type sp)))
       \<and> e_endIndex (entityOf text type sp)
            = e_startIndex (entityOf text type sp)
              + int (length (e_text (entityOf text type sp)))"
proof -
  from indexOf_substring [OF assms, of "snd sp"] obtain i where
    "indexOf text (substring text (fst sp) (snd sp)) = int i"
    "spec_firstOccurrence text (substring text (fst sp) (snd sp)) i" by blast
  then show ?thesis by (simp add: entityOf_def)
qed

text \<open>
  C6. For every text, entity extraction returns, and every entity it emits has confidence
  0.9, a start index that is the position of the first occurrence of the matched string in
  the text, and an end index that is the start index plus the length of the matched
  string, so that two entities with the same matched string carry the same indices. The
  entities are those of the patterns email, phone, date, url, money in this order, and for
  each pattern the matches of the pattern from left to right.
\<close>

theorem extractEntities_first_occurrence_indices:
  "\<exists>r. extractEntities now t text = Inr r
     \<and> (\<forall>ent \<in> set (en_entities r).
            e_confidence ent = 0.9
          \<and> 0 \<le> e_startIndex ent
          \<and> spec_firstOccurrence text (e_text ent) (nat (e_startIndex ent))
          \<and> e_endIndex ent = e_startIndex ent + int (length (e_text ent)))
     \<and> (\<forall>ent \<in> set (en_entities r). \<forall>ent' \<in> set (en_entities r).
            e_text ent = e_text ent'
            \<longrightarrow> e_startIndex ent = e_startIndex ent' \<and> e_endIndex ent = e_endIndex ent')
     \<and> map (\<lambda>ent. (e_type ent, e_text ent)) (en_entities r)
         = concat (map (\<lambda>(type, pattern).
                          map (\<lambda>(b, e). (type, substring text b e)) (spans pattern text 0))
                       patterns)
     \<and> map fst patterns = [''email'', ''phone'', ''date'', ''url'', ''money'']
     \<and> (\<forall>(type, pattern) \<in> set patterns. spec_leftToRight (spans pattern text 0))"
proof -
  let ?es = "concat (map (\<lambda>(type, pattern). map (entityOf text type) (spans pattern text 0)) patterns)"
  let ?r = "\<lparr> en_entities = ?es, en_totalEntities = length ?es,
              en_processingTime = now (t + 1) - now t \<rparr>"
  have r: "extractEntities now t text = Inr ?r"
    unfolding extractEntities_def Let_def foldl_applyPattern by simp
  have mem: "\<exists>type sp. ent = entityOf text type sp \<and> fst sp \<le> length text"
    if "ent \<in> set ?es" for ent
  proof -
    from that obtain p where "p \<in> set patterns"
      "ent \<in> set (map (entityOf text (fst p)) (spans (snd p) text 0))"
      unfolding set_concat set_map by (auto simp: split_def)
    then obtain sp where
      "sp \<in> set (spans (snd p) text 0)" "ent = entityOf text (fst p) sp"
      by auto
    then obtain type pattern where
      "sp \<in> set (spans pattern text 0)" "ent = entityOf text type sp"
      by blast
    moreover from this(1) have "fst sp \<le> length text"
      using spans_bounds [of "fst sp" "snd sp" pattern "text" 0] by simp
    ultimately show ?thesis by blast
  qed
  have one: "\<forall>ent \<in> set ?es.
            e_confidence ent = 0.9
          \<and> 0 \<le> e_startIndex ent
          \<and> spec_firstOccurrence text (e_text ent) (nat (e_startIndex ent))
          \<and> e_endIndex ent = e_startIndex ent + int (length (e_text ent))"
  proof
    fix ent assume "ent \<in> set ?es"
    from mem [OF this] obtain type sp where
      "ent = entityOf text type sp" "fst sp \<le> length text" by blast
    then show "e_confidence ent = 0.9
          \<and> 0 \<le> e_startIndex ent
          \<and> spec_firstOccurrence text (e_text ent) (nat (e_startIndex ent))
          \<and> e_endIndex ent = e_startIndex ent + int (length (e_text ent))"
      using entityOf_indices [of sp "text" type] by simp
  qed
  have two: "\<forall>ent \<in> set ?es. \<forall>ent' \<in> set ?es.
            e_text ent = e_text ent'
            \<longrightarrow> e_startIndex ent = e_startIndex ent' \<and> e_endIndex ent = e_endIndex ent'"
  proof (intro ballI impI)
    fix ent ent' assume "ent \<in> set ?es" "ent' \<in> set ?es" and eq: "e_text ent = e_text ent'"
    from mem [OF this(1)] mem [OF this(2)] obtain type sp type' sp' where
      "ent = entityOf text type sp" "ent' = entityOf text type' sp'" by blast
    with eq show "e_startIndex ent = e_startIndex ent' \<and> e_endIndex ent = e_endIndex ent'"
      by (simp add: entityOf_def)
  qed
  have three: "map (\<lambda>ent. (e_type ent, e_text ent)) ?es
         = concat (map (\<lambda>(type, pattern).
                          map (\<lambda>(b, e). (type, substring text b e)) (spans pattern text 0))
                       patterns)"
    unfolding map_concat map_map
    by (rule arg_cong [of _ _ concat], rule map_cong [OF refl])
       (simp add: split_def comp_def entityOf_def)
  have four: "map fst patterns = [''email'', ''phone'', ''date'', ''url'', ''money'']"
    by (simp add: patterns_def)
  have five: "\<forall>(type, pattern) \<in> set patterns. spec_leftToRight (spans pattern text 0)"
    by (simp add: spans_leftToRight split_def)
  show ?thesis
  proof (rule exI [of _ ?r], intro conjI)
    show "extractEntities now t text = Inr ?r" by (rule r)
    show "\<forall>ent \<in> set (en_entities ?r).
            e_confidence ent = 0.9
          \<and> 0 \<le> e_startIndex ent
          \<and> spec_firstOccurrence text (e_text ent) (nat (e_startIndex ent))
          \<and> e_endIndex ent = e_startIndex ent + int (length (e_text ent))"
      unfolding EntityResult.simps by (rule one)
    show "\<forall>ent \<in> set (en_entities ?r). \<forall>ent' \<in> set (en_entities ?r).
            e_text ent = e_text ent'
            \<longrightarrow> e_startIndex ent = e_startIndex ent' \<and> e_endIndex ent = e_endIndex ent'"
      unfolding EntityResult.simps by (rule two)
    show "map (\<lambda>ent. (e_type ent, e_text ent)) (en_entities ?r)
         = concat (map (\<lambda>(type, pattern).
                          map (\<lambda>(b, e). (type, substring text b e)) (spans pattern text 0))
                       patterns)"
      unfolding EntityResult.simps by (rule three)
    show "map fst patterns = [''email'', ''phone'', ''date'', ''url'', ''money'']" by (rule four)
    show "\<forall>(type, pattern) \<in> set patterns. spec_leftToRight (spans pattern text 0)"
      by (rule five)
  qed
qed

lemma extractEntities_repeated_money:
  "map_sum id (\<lambda>r. map (\<lambda>ent. (e_type ent, e_text ent, e_startIndex ent, e_endIndex ent))
                        (en_entities r))
     (extractEntities int 0 ''$1 $1 a@b.co'')
   = Inr [(''email'', ''a@b.co'', 6, 12), (''money'', ''$1'', 0, 2), (''money'', ''$1'', 0, 2)]"
  by code_simp

theorem extractEntities_first_occurrence_indices_witness:
  "\<exists>r. extractEntities int 0 ''$1 $1 a@b.co'' = Inr r
     \<and> map (\<lambda>ent. (e_type ent, e_text ent, e_startIndex ent, e_endIndex ent)) (en_entities r)
         = [(''email'', ''a@b.co'', 6, 12), (''money'', ''$1'', 0, 2), (''money'', ''$1'', 0, 2)]
     \<and> list_all (\<lambda>ent. e_confidence ent = 0.9) (en_entities r)"
proof -
  from extractEntities_first_occurrence_indices [of int 0 "''$1 $1 a@b.co''"]
  obtain r where r: "extractEntities int 0 ''$1 $1 a@b.co'' = Inr r"
    and q: "\<forall>ent \<in> set (en_entities r).
            e_confidence ent = 0.9
          \<and> 0 \<le> e_startIndex ent
          \<and> spec_firstOccurrence ''$1 $1 a@b.co'' (e_text ent) (nat (e_startIndex ent))
          \<and> e_endIndex ent = e_startIndex ent + int (length (e_text ent))"
    by blast
  have m: "map (\<lambda>ent. (e_type ent, e_text ent, e_startIndex ent, e_endIndex ent)) (en_entities r)
       = [(''email'', ''a@b.co'', 6, 12), (''money'', ''$1'', 0, 2), (''money'', ''$1'', 0, 2)]"
    using extractEntities_repeated_money unfolding r by simp
  have c: "list_all (\<lambda>ent. e_confidence ent = 0.9) (en_entities r)"
    unfolding list_all_iff using q by blast
  show ?thesis
    by (rule exI [of _ r]) (intro conjI r m c)
qed

section \<open>Properties of services/mlService.ts\<close>

subsection \<open>classification\<close>

lemma scoreLoop_foldl:
  "scoreLoop features weights i score =
     foldl (\<lambda>s j. fl (s + fl (features ! j * weights ! j))) score
       [i ..< min (length features) (length weights)]"
proof (induction features weights i score rule: scoreLoop.induct)
  case (1 features weights i score)
  show ?case
  proof (cases "i < min (length features) (length weights)")
    case True
    then have "scoreLoop features weights i score
                 = scoreLoop features weights (i + 1) (fl (score + fl (features ! i * weights ! i)))"
      by (subst scoreLoop.simps) (simp only: if_True)
    also have "\<dots> = foldl (\<lambda>s j. fl (s + fl (features ! j * weights ! j)))
                         (fl (score + fl (features ! i * weights ! i)))
                         [i + 1 ..< min (length features) (length weights)]"
      using "1.IH" [OF True] .
    also have "\<dots> = foldl (\<lambda>s j. fl (s + fl (features ! j * weights ! j))) score
                         [i ..< min (length features) (length weights)]"
      using True by (simp add: upt_conv_Cons)
    finally show ?thesis .
  next
    case False
    then have le: "min (length features) (length weights) \<le> i" by linarith
    have e: "[i ..< min (length features) (length weights)] = []" using le by simp
    have r: "scoreLoop features weights i score = score"
      using False by (subst scoreLoop.simps) (simp only: if_False)
    show ?thesis unfolding r e by simp
  qed
qed

lemma classification_score:
  "scoreLoop features [fl 0.7, - fl 0.4, fl 0.6, - fl 0.2, fl 0.3] 0 (fl 0.1) = f64_score features"
proof -
  have "length [fl 0.7, - fl 0.4, fl 0.6, - fl 0.2, fl 0.3] = 5" by simp
  then show ?thesis
    unfolding scoreLoop_foldl f64_score_def by (simp only:)
qed

lemma classification_run:
  "classification Math_exp features returnProbabilities =
     Inr \<lparr> sr_prediction =
             PredLabel (if f64_probability Math_exp features > 0.5 then ''positive''
                        else ''negative''),
           sr_confidence =
             Num (fl (toFixed3 (fl (\<bar>fl (f64_probability Math_exp features - 0.5)\<bar> * 2)))),
           sr_probabilities =
             (if returnProbabilities
              then Some (fl (toFixed3 (f64_probability Math_exp features)),
                         fl (toFixed3 (fl (1 - f64_probability Math_exp features))))
              else None),
           sr_distance = None, sr_anomalyScore = None, sr_outOfRangeFeatures = None,
           sr_modelInfo = LogisticInfo 0.5 0.89 \<rparr>"
  unfolding classification_def Let_def classification_score f64_probability_def by simp

lemma f64_probability_unit:
  assumes "\<forall>x. 0 \<le> Math_exp x"
  shows "0 < f64_probability Math_exp features" "f64_probability Math_exp features \<le> 1"
proof -
  define d where "d = fl (1 + Math_exp (- f64_score features))"
  have "1 \<le> 1 + Math_exp (- f64_score features)" using assms by simp
  then have d: "1 \<le> d" unfolding d_def by (rule fl_ge_one)
  then have "0 < 1 / d" "1 / d \<le> 1" by simp_all
  then show "0 < f64_probability Math_exp features" "f64_probability Math_exp features \<le> 1"
    unfolding f64_probability_def d_def [symmetric] by (simp_all add: fl_pos fl_le_one)
qed

lemma toFixed3_rounded3: "rounded3 x (toFixed3 x)"
proof (cases "x < 0")
  case True
  have "\<bar>real_of_int \<lfloor>(- x) * 1000 + 1 / 2\<rfloor> - (- x) * 1000\<bar> \<le> 1 / 2"
    by linarith
  then have "\<bar>- (real_of_int \<lfloor>(- x) * 1000 + 1 / 2\<rfloor> / 1000) - x\<bar> \<le> 1 / 2000"
    by (simp add: field_simps abs_if split: if_splits)
  then show ?thesis
    using True unfolding rounded3_def toFixed3_def
    by (auto intro: exI [of _ "- \<lfloor>(- x) * 1000 + 1 / 2\<rfloor>"])
next
  case False
  have "\<bar>real_of_int \<lfloor>x * 1000 + 1 / 2\<rfloor> - x * 1000\<bar> \<le> 1 / 2"
    by linarith
  then have "\<bar>real_of_int \<lfloor>x * 1000 + 1 / 2\<rfloor> / 1000 - x\<bar> \<le> 1 / 2000"
    by (simp add: field_simps abs_if split: if_splits)
  then show ?thesis
    using False unfolding rounded3_def toFixed3_def
    by (auto intro: exI [of _ "\<lfloor>x * 1000 + 1 / 2\<rfloor>"])
qed

lemma toFixed3_unit:
  assumes "0 \<le> x" "x \<le> 1"
  shows "0 \<le> toFixed3 x \<and> toFixed3 x \<le> 1"
proof -
  have "\<lfloor>x * 1000 + 1 / 2\<rfloor> \<le> 1000" using assms by linarith
  moreover have "0 \<le> \<lfloor>x * 1000 + 1 / 2\<rfloor>" using assms by simp
  ultimately show ?thesis using assms by (simp add: toFixed3_def)
qed

lemma fl_toFixed3_unit:
  assumes "0 \<le> x" "x \<le> 1"
  shows "0 \<le> fl (toFixed3 x)" "fl (toFixed3 x) \<le> 1" "\<bar>fl (toFixed3 x) - x\<bar> \<le> 1 / 2000 + 1 / 2 ^ 53"
proof -
  from toFixed3_unit [OF assms] have t: "0 \<le> toFixed3 x" "toFixed3 x \<le> 1" by simp_all
  show "0 \<le> fl (toFixed3 x)" using t(1) by (rule fl_nonneg)
  show "fl (toFixed3 x) \<le> 1" using t(2) by (rule fl_le_one)
  have "\<bar>fl (toFixed3 x) - toFixed3 x\<bar> \<le> 1 / 2 ^ 53"
    using t by (intro fl_error_unit) simp
  moreover have "\<bar>toFixed3 x - x\<bar> \<le> 1 / 2000"
    using toFixed3_rounded3 [of x] by (simp add: rounded3_def)
  ultimately show "\<bar>fl (toFixed3 x) - x\<bar> \<le> 1 / 2000 + 1 / 2 ^ 53" by linarith
qed

lemma f64_confidence_unit:
  assumes "0 < p" "p \<le> 1"
  shows "0 \<le> fl (\<bar>fl (p - 0.5)\<bar> * 2)" "fl (\<bar>fl (p - 0.5)\<bar> * 2) \<le> 1"
proof -
  have u: "fl (p - 0.5) \<le> 1 / 2" using assms by (intro fl_le_half) simp
  have "fl (- (p - 0.5)) \<le> 1 / 2" using assms by (intro fl_le_half) simp
  then have l: "- fl (p - 0.5) \<le> 1 / 2" by (simp only: fl_minus)
  from u l have "\<bar>fl (p - 0.5)\<bar> \<le> 1 / 2" by linarith
  then have "\<bar>fl (p - 0.5)\<bar> * 2 \<le> 1" by simp
  then show "fl (\<bar>fl (p - 0.5)\<bar> * 2) \<le> 1" by (rule fl_le_one)
  show "0 \<le> fl (\<bar>fl (p - 0.5)\<bar> * 2)" by (intro fl_nonneg) simp
qed























subsection \<open>Confidence values\<close>

lemma or_else_unit:
  assumes "\<And>v. x = Some v \<Longrightarrow> 0 \<le> v \<and> v \<le> 1"
  shows "0 \<le> or_else x 0.8 \<and> or_else x 0.8 \<le> 1"
  using assms by (cases x) (auto simp: or_else_def)

lemma analyzeSentiment_confidence:
  assumes "analyzeSentiment now t text = Inr r"
  shows "0 \<le> s_confidence r \<and> s_confidence r \<le> 1"
proof -
  obtain p n where pn: "foldl countWord (0, 0) (split_on (\<lambda>c. c = CHR '' '') (toLowerCase text)) = (p, n)"
    by (cases "foldl countWord (0, 0) (split_on (\<lambda>c. c = CHR '' '') (toLowerCase text))")
  have "s_confidence r =
          (if p - n > 0 then min 0.9 (0.5 + real_of_int (p - n) * 0.1)
           else if p - n < 0 then min 0.9 (0.5 + real_of_int \<bar>p - n\<bar> * 0.1)
           else 0.6)"
    using assms unfolding analyzeSentiment_def Let_def pn by auto
  moreover have "0 \<le> min 0.9 (0.5 + real_of_int k * 0.1) \<and> min 0.9 (0.5 + real_of_int k * 0.1) \<le> 1"
    if "0 \<le> k" for k :: int
  proof -
    have "0 \<le> real_of_int k * 0.1" using that by simp
    then show ?thesis by (simp add: min_def)
  qed
  ultimately show ?thesis
    by (cases "p - n > 0"; cases "p - n < 0") simp_all
qed

lemma foldl_pickTop_mem: "foldl pickTop x xs \<in> set (x # xs)"
  by (induction xs arbitrary: x) (auto simp: pickTop_def)

lemma scoreCategory_confidence:
  "0 \<le> cs_confidence (scoreCategory lowered c) \<and> cs_confidence (scoreCategory lowered c) \<le> 1"
  by (simp add: scoreCategory_def Let_def min_def)

lemma classifyText_confidence:
  assumes "classifyText now t text = Inr r"
  shows "0 \<le> c_confidence r \<and> c_confidence r \<le> 1"
proof -
  define scores where "scores = map (scoreCategory (toLowerCase text)) categories"
  have "scores \<noteq> []" by (simp add: scores_def categories_def)
  then obtain x xs where xs: "scores = x # xs" by (cases scores) auto
  have "c_confidence r = cs_confidence (foldl pickTop x xs)"
    using assms unfolding classifyText_def Let_def scores_def [symmetric] xs reduce1_def
    by auto
  moreover have "foldl pickTop x xs \<in> set scores"
    unfolding xs by (rule foldl_pickTop_mem)
  ultimately show ?thesis
    using scoreCategory_confidence by (auto simp: scores_def)
qed


lemma map_sum_id_Inr: "map_sum id f x = Inr y \<Longrightarrow> \<exists>r. x = Inr r \<and> y = f r"
  by (cases x) auto

lemma dispatchAnalysis_confidence:
  assumes "dispatchAnalysis now t request = Inr d" and "data_confidence d = Some v"
  shows "0 \<le> v \<and> v \<le> 1"
proof -
  consider
      (sentiment) r where "analyzeSentiment now t (rq_text request) = Inr r" "d = SentimentData r"
    | (classification) r where "classifyText now t (rq_text request) = Inr r" "d = ClassificationData r"
    | (summary) r where "d = SummaryData r"
    | (translation) r l where "translateText now t (rq_text request) l = Inr r" "d = TranslationData r"
    | (entity) r where "d = EntityData r"
    using assms(1) unfolding dispatchAnalysis_def
    by (auto split: if_splits dest!: map_sum_id_Inr)
  then show ?thesis
  proof cases
    case sentiment
    with assms(2) analyzeSentiment_confidence show ?thesis
      by (auto simp: data_confidence_def)
  next
    case classification
    with assms(2) classifyText_confidence show ?thesis
      by (auto simp: data_confidence_def)
  next
    case summary
    with assms(2) show ?thesis by (simp add: data_confidence_def)
  next
    case translation
    then have "tr_confidence r = 0.85"
      by (auto simp: translateText_def Let_def)
    with translation assms(2) show ?thesis by (auto simp: data_confidence_def)
  next
    case entity
    with assms(2) show ?thesis by (simp add: data_confidence_def)
  qed
qed

lemma processAnalysis_confidence:
  assumes "processAnalysis now t request = Inr r"
  shows "0 \<le> rs_confidence r \<and> rs_confidence r \<le> 1"
proof -
  from assms obtain d where d: "dispatchAnalysis now (t + 1) request = Inr d"
    and c: "rs_confidence r = or_else (data_confidence d) 0.8"
    unfolding processAnalysis_def Let_def by (auto split: sum.splits)
  show ?thesis
    unfolding c using dispatchAnalysis_confidence [OF d] by (rule or_else_unit)
qed

lemma classification_confidence:
  assumes "\<forall>x. 0 \<le> Math_exp x" and "classification Math_exp features rp = Inr r"
  shows "\<exists>c. sr_confidence r = Num c \<and> 0 \<le> c \<and> c \<le> 1"
proof -
  let ?p = "f64_probability Math_exp features"
  let ?c = "fl (\<bar>fl (?p - 0.5)\<bar> * 2)"
  from f64_probability_unit [OF assms(1), of features] have p: "0 < ?p" "?p \<le> 1" .
  from f64_confidence_unit [OF p] have c: "0 \<le> ?c" "?c \<le> 1" .
  from fl_toFixed3_unit(1,2) [OF c] have "0 \<le> fl (toFixed3 ?c)" "fl (toFixed3 ?c) \<le> 1" .
  moreover have "sr_confidence r = Num (fl (toFixed3 ?c))"
    using assms(2) unfolding classification_run by auto
  ultimately show ?thesis by blast
qed

lemma squaredDistance_nonneg: "0 \<le> d \<Longrightarrow> 0 \<le> squaredDistance features centroid i d"
proof (induction features centroid i d rule: squaredDistance.induct)
  case (1 features centroid i distance)
  show ?case
  proof (cases "i < min (length features) (length centroid)")
    case True
    have "0 \<le> distance + (features ! i - centroid ! i)\<^sup>2" using "1.prems" by simp
    from "1.IH" [OF True this] True show ?thesis
      by (subst squaredDistance.simps) (simp only: if_True)
  next
    case False
    with "1.prems" show ?thesis
      by (subst squaredDistance.simps) (simp only: if_False)
  qed
qed

lemma nearer_nonneg:
  assumes "\<And>m. fst st = Some m \<Longrightarrow> 0 \<le> m" and "fst (nearer features st entry) = Some m"
  shows "0 \<le> m"
proof -
  obtain md ac where st: "st = (md, ac)" by (cases st)
  obtain index centroid where e: "entry = (index, centroid)" by (cases entry)
  have "0 \<le> sqrt (squaredDistance features centroid 0 0)"
    by (simp add: squaredDistance_nonneg)
  with assms show ?thesis
    unfolding st e nearer_def Let_def by (auto split: if_splits option.splits)
qed

lemma foldl_nearer_nonneg:
  assumes "\<And>m. fst st = Some m \<Longrightarrow> 0 \<le> m" and "fst (foldl (nearer features) st es) = Some m"
  shows "0 \<le> m"
  using assms
proof (induction es arbitrary: st)
  case Nil
  then show ?case by simp
next
  case (Cons e es)
  show ?case
  proof (rule Cons.IH [of "nearer features st e"])
    show "0 \<le> k" if "fst (nearer features st e) = Some k" for k
      using nearer_nonneg [of st features e k] Cons.prems(1) that by blast
    show "fst (foldl (nearer features) (nearer features st e) es) = Some m"
      using Cons.prems(2) by simp
  qed
qed

lemma clustering_confidence:
  assumes "clustering features = Inr r"
  shows "\<exists>c. sr_confidence r = Num c \<and> 0 \<le> c \<and> c \<le> 1"
proof -
  obtain md ac where f: "foldl (nearer features) (None, 0) (enumerate 0 centroids) = (md, ac)"
    by (cases "foldl (nearer features) (None, 0) (enumerate 0 centroids)")
  define c :: real where "c = (case md of None \<Rightarrow> 0.1 | Some m \<Rightarrow> max 0.1 (1 - m / 10))"
  have "0 \<le> m" if "md = Some m" for m
    using foldl_nearer_nonneg [of "(None, 0)" features "enumerate 0 centroids" m] f that by simp
  then have "0 \<le> c" "c \<le> 1"
    by (auto simp: c_def split: option.splits)
  from toFixed3_unit [OF this] have "0 \<le> toFixed3 c \<and> toFixed3 c \<le> 1" .
  moreover have "sr_confidence r = Num (toFixed3 c)"
    using assms unfolding clustering_def Let_def f c_def by auto
  ultimately show ?thesis by blast
qed

lemma anomalyDetection_confidence:
  assumes "anomalyDetection features threshold = Inr r" and "features \<noteq> []"
  shows "\<exists>c. sr_confidence r = Num c \<and> 0 \<le> c \<and> c \<le> 1"
proof -
  obtain a k where f: "foldl checkRange (0, 0) (enumerate 0 features) = (a, k)"
    by (cases "foldl checkRange (0, 0) (enumerate 0 features)")
  define c where "c = min (\<bar>min 1 (a / real (length features * 2)) - threshold\<bar> + 0.1) 1"
  have "0 \<le> c" "c \<le> 1" by (simp_all add: c_def min_def)
  from toFixed3_unit [OF this] have "0 \<le> toFixed3 c \<and> toFixed3 c \<le> 1" .
  moreover have "sr_confidence r = Num (toFixed3 c)"
    using assms unfolding anomalyDetection_def Let_def f c_def by auto
  ultimately show ?thesis by blast
qed

lemma makePrediction_confidence:
  assumes "makePrediction Math_exp random request = Inr r"
    and "mq_modelType request = ''anomaly_detection'' \<longrightarrow> mq_features request \<noteq> []"
    and "\<forall>x. 0 \<le> Math_exp x"
  shows "\<exists>c. mr_confidence r = Num c \<and> 0 \<le> c \<and> c \<le> 1"
proof -
  from assms(1) obtain s where s: "dispatchPrediction Math_exp random request = Inr s"
    and c: "mr_confidence r = sr_confidence s"
    unfolding makePrediction_def by (auto split: sum.splits)
  have "\<exists>c. sr_confidence s = Num c \<and> 0 \<le> c \<and> c \<le> 1"
  proof -
    consider (lin) "linearRegression random (mq_features request) = Inr s"
      | (cls) b where "classification Math_exp (mq_features request) b = Inr s"
      | (clu) "clustering (mq_features request) = Inr s"
      | (ano) th where "anomalyDetection (mq_features request) th = Inr s"
                       "mq_features request \<noteq> []"
      using s assms(2) unfolding dispatchPrediction_def by (auto split: if_splits)
    then show ?thesis
    proof cases
      case lin
      then have "sr_confidence s = Num 0.85"
        by (auto simp: linearRegression_def Let_def)
      then show ?thesis by (intro exI [of _ "0.85"]) simp
    next
      case cls
      with assms(3) show ?thesis by (rule classification_confidence)
    next
      case clu
      then show ?thesis by (rule clustering_confidence)
    next
      case ano
      then show ?thesis by (rule anomalyDetection_confidence)
    qed
  qed
  with c show ?thesis by simp
qed

text \<open>
  C2. The confidence that processAnalysis returns always lies in \<open>[0, 1]\<close>
  (\<open>processAnalysis_confidence\<close>), and so does the confidence that makePrediction returns
  for linear regression, classification (whatever non-negative values \<^verbatim>\<open>Math.exp\<close>
  returns), clustering, and for anomaly detection on a non-empty feature vector
  (\<open>makePrediction_confidence\<close>). On the empty feature vector
  anomaly detection normalises the score by \<open>features.length * 2 = 0\<close>: the quotient
  \<open>0/0\<close> is \<open>NaN\<close>, and the confidence returned is \<open>NaN\<close>, not a number of the interval.
\<close>

theorem makePrediction_anomaly_empty_features:
  "makePrediction Math_exp random
      \<lparr> mq_features = [], mq_modelType = ''anomaly_detection'', mq_options = opts \<rparr>
     = Inr \<lparr> mr_prediction = PredLabel ''normal'', mr_confidence = NaN,
             mr_probabilities = None, mr_type = ''anomaly_detection'',
             mr_version = ''1.0.0'', mr_accuracy = 0.85 \<rparr>"
  by (simp add: makePrediction_def dispatchPrediction_def anomalyDetection_def
        info_accuracy_def or_else_def)

section \<open>Properties of the batch handlers\<close>

lemma analyzeItem_outcome:
  "bi_index (analyzeItem create now tick (i, rq)) = i
   \<and> bi_success (analyzeItem create now tick (i, rq)) = (\<not> analysisRaises create now tick (i, rq))"
  by (simp add: analyzeItem_def analysisRaises_def split: sum.splits)

lemma predictItem_outcome:
  "bi_index (predictItem create Math_exp random (i, rq)) = i
   \<and> bi_success (predictItem create Math_exp random (i, rq))
       = (\<not> predictionRaises create Math_exp random (i, rq))"
  by (simp add: predictItem_def predictionRaises_def split: sum.splits)

lemma batch_outcomes:
  fixes item :: "nat \<times> 'q \<Rightarrow> 'a BatchItem"
  assumes out: "\<And>i rq. bi_index (item (i, rq)) = i \<and> bi_success (item (i, rq)) = (\<not> raises (i, rq))"
    and one: "length (filter raises (enumerate 0 requests)) = 1"
  shows "length (map item (enumerate 0 requests)) = length requests"
    and "\<forall>i < length requests.
           bi_index (map item (enumerate 0 requests) ! i) = i
         \<and> bi_success (map item (enumerate 0 requests) ! i) = (\<not> raises (i, requests ! i))"
    and "length (filter bi_success (map item (enumerate 0 requests))) = length requests - 1"
    and "length requests - length (filter bi_success (map item (enumerate 0 requests))) = 1"
proof -
  let ?es = "enumerate 0 requests"
  show "length (map item ?es) = length requests" by simp
  show "\<forall>i < length requests.
           bi_index (map item ?es ! i) = i
         \<and> bi_success (map item ?es ! i) = (\<not> raises (i, requests ! i))"
    using out by (simp add: nth_enumerate_eq)
  have "(\<lambda>e. bi_success (item e)) = (\<lambda>e. \<not> raises e)"
    using out by (auto simp: fun_eq_iff)
  then have "filter bi_success (map item ?es) = map item (filter (\<lambda>e. \<not> raises e) ?es)"
    by (simp add: filter_map comp_def)
  then have "length (filter bi_success (map item ?es)) = length (filter (\<lambda>e. \<not> raises e) ?es)"
    by simp
  moreover have "length (filter raises ?es) + length (filter (\<lambda>e. \<not> raises e) ?es) = length ?es"
    by (rule sum_length_filter_compl)
  ultimately have s: "length (filter bi_success (map item ?es)) + 1 = length requests"
    using one by simp
  then show "length (filter bi_success (map item ?es)) = length requests - 1" by simp
  from s show "length requests - length (filter bi_success (map item ?es)) = 1" by simp
qed

lemma processAnalysis_sentiment_returns:
  "rq_analysisType rq = ''sentiment'' \<Longrightarrow> \<not> isl (processAnalysis now t rq)"
  by (simp add: processAnalysis_def dispatchAnalysis_def analyzeSentiment_def Let_def
        split: prod.splits)

lemma processAnalysis_unsupported_raises:
  "rq_analysisType rq \<notin> {''sentiment'', ''classification'', ''summarization'', ''translation'',
       ''entity_extraction''} \<Longrightarrow> isl (processAnalysis now t rq)"
  by (simp add: processAnalysis_def dispatchAnalysis_def)

lemma makePrediction_clustering_returns:
  "mq_modelType rq = ''clustering'' \<Longrightarrow> \<not> isl (makePrediction Math_exp random rq)"
  by (simp add: makePrediction_def dispatchPrediction_def clustering_def Let_def
        split: prod.splits)

lemma makePrediction_unsupported_raises:
  "mq_modelType rq \<notin> {''linear_regression'', ''classification'', ''clustering'',
       ''anomaly_detection''} \<Longrightarrow> isl (makePrediction Math_exp random rq)"
  by (simp add: makePrediction_def dispatchPrediction_def)

lemma analysisRaises_iff:
  "analysisRaises create now tick (i, rq)
     = (isl (processAnalysis now (tick i) rq)
        \<or> (\<exists>a. processAnalysis now (tick i) rq = Inr a \<and> isl (create i rq a)))"
  by (auto simp: analysisRaises_def split: sum.splits)

lemma predictionRaises_iff:
  "predictionRaises create Math_exp random (i, rq)
     = (isl (makePrediction Math_exp (random i) rq)
        \<or> (\<exists>a. makePrediction Math_exp (random i) rq = Inr a \<and> isl (create i rq a)))"
  by (auto simp: predictionRaises_def split: sum.splits)

text \<open>
  C4. For every batch of N requests, N between 1 and the ceiling of the handler (10 for
  \<^verbatim>\<open>/batch-analyze\<close>, 20 for \<^verbatim>\<open>/batch-predict\<close>), in which exactly one item raises, the
  handler answers with status 200 and exactly N outcomes in the order of the requests: the
  outcome at position i is the outcome of request i, carries index i, and is marked
  successful exactly when request i did not raise; the item that raised is reported with
  success false and the handler's error text. The summary counts are total N, successful
  N - 1 and failed 1.
\<close>

theorem batch_one_item_raises:
  "(1 \<le> length requests \<and> length requests \<le> 10
      \<and> length (filter (analysisRaises create now tick) (enumerate 0 requests)) = 1
    \<longrightarrow> (\<exists>d. batchAnalyze create now tick (Some requests) = Status200 d ''Batch analysis completed''
           \<and> length (bd_results d) = length requests
           \<and> (\<forall>i < length requests.
                 bd_results d ! i = analyzeItem create now tick (i, requests ! i)
               \<and> bi_index (bd_results d ! i) = i
               \<and> bi_success (bd_results d ! i)
                   = (\<not> analysisRaises create now tick (i, requests ! i))
               \<and> (analysisRaises create now tick (i, requests ! i)
                    \<longrightarrow> bi_error (bd_results d ! i) = Some ''Analysis failed''))
           \<and> bd_total d = length requests
           \<and> bd_successful d = length requests - 1
           \<and> bd_failed d = 1))
   \<and> (1 \<le> length mlRequests \<and> length mlRequests \<le> 20
      \<and> length (filter (predictionRaises mlCreate Math_exp random) (enumerate 0 mlRequests)) = 1
    \<longrightarrow> (\<exists>d. batchPredict mlCreate Math_exp random (Some mlRequests)
                 = Status200 d ''Batch predictions completed''
           \<and> length (bd_results d) = length mlRequests
           \<and> (\<forall>i < length mlRequests.
                 bd_results d ! i = predictItem mlCreate Math_exp random (i, mlRequests ! i)
               \<and> bi_index (bd_results d ! i) = i
               \<and> bi_success (bd_results d ! i)
                   = (\<not> predictionRaises mlCreate Math_exp random (i, mlRequests ! i))
               \<and> (predictionRaises mlCreate Math_exp random (i, mlRequests ! i)
                    \<longrightarrow> bi_error (bd_results d ! i) = Some ''Prediction failed''))
           \<and> bd_total d = length mlRequests
           \<and> bd_successful d = length mlRequests - 1
           \<and> bd_failed d = 1))"
proof (intro conjI impI)
  assume a: "1 \<le> length requests \<and> length requests \<le> 10
      \<and> length (filter (analysisRaises create now tick) (enumerate 0 requests)) = 1"
  let ?item = "analyzeItem create now tick"
  let ?rs = "map ?item (enumerate 0 requests)"
  let ?d = "\<lparr> bd_results = ?rs, bd_total = length requests,
              bd_successful = length (filter bi_success ?rs),
              bd_failed = length requests - length (filter bi_success ?rs) \<rparr>"
  have out: "\<And>i rq. bi_index (?item (i, rq)) = i
                   \<and> bi_success (?item (i, rq)) = (\<not> analysisRaises create now tick (i, rq))"
    by (rule analyzeItem_outcome)
  have one: "length (filter (analysisRaises create now tick) (enumerate 0 requests)) = 1"
    using a by simp
  note b = batch_outcomes [of ?item "analysisRaises create now tick" requests, OF out one]
  have r: "batchAnalyze create now tick (Some requests) = Status200 ?d ''Batch analysis completed''"
    using a by (auto simp: batchAnalyze_def Let_def)
  have e: "\<forall>i < length requests.
             analysisRaises create now tick (i, requests ! i)
             \<longrightarrow> bi_error (?item (i, requests ! i)) = Some ''Analysis failed''"
    by (auto simp: analyzeItem_def analysisRaises_def split: sum.splits)
  have n: "\<forall>i < length requests. ?rs ! i = ?item (i, requests ! i)"
    by (simp add: nth_enumerate_eq)
  show "\<exists>d. batchAnalyze create now tick (Some requests) = Status200 d ''Batch analysis completed''
           \<and> length (bd_results d) = length requests
           \<and> (\<forall>i < length requests.
                 bd_results d ! i = analyzeItem create now tick (i, requests ! i)
               \<and> bi_index (bd_results d ! i) = i
               \<and> bi_success (bd_results d ! i)
                   = (\<not> analysisRaises create now tick (i, requests ! i))
               \<and> (analysisRaises create now tick (i, requests ! i)
                    \<longrightarrow> bi_error (bd_results d ! i) = Some ''Analysis failed''))
           \<and> bd_total d = length requests
           \<and> bd_successful d = length requests - 1
           \<and> bd_failed d = 1"
    apply (rule exI [of _ ?d])
    using r b e n out apply simp
    done
next
  assume a: "1 \<le> length mlRequests \<and> length mlRequests \<le> 20
      \<and> length (filter (predictionRaises mlCreate Math_exp random) (enumerate 0 mlRequests)) = 1"
  let ?item = "predictItem mlCreate Math_exp random"
  let ?rs = "map ?item (enumerate 0 mlRequests)"
  let ?d = "\<lparr> bd_results = ?rs, bd_total = length mlRequests,
              bd_successful = length (filter bi_success ?rs),
              bd_failed = length mlRequests - length (filter bi_success ?rs) \<rparr>"
  have out: "\<And>i rq. bi_index (?item (i, rq)) = i
                   \<and> bi_success (?item (i, rq)) = (\<not> predictionRaises mlCreate Math_exp random (i, rq))"
    by (rule predictItem_outcome)
  have one: "length (filter (predictionRaises mlCreate Math_exp random) (enumerate 0 mlRequests)) = 1"
    using a by simp
  note b = batch_outcomes [of ?item "predictionRaises mlCreate Math_exp random" mlRequests, OF out one]
  have r: "batchPredict mlCreate Math_exp random (Some mlRequests)
             = Status200 ?d ''Batch predictions completed''"
    using a by (auto simp: batchPredict_def Let_def)
  have e: "\<forall>i < length mlRequests.
             predictionRaises mlCreate Math_exp random (i, mlRequests ! i)
             \<longrightarrow> bi_error (?item (i, mlRequests ! i)) = Some ''Prediction failed''"
    by (auto simp: predictItem_def predictionRaises_def split: sum.splits)
  have n: "\<forall>i < length mlRequests. ?rs ! i = ?item (i, mlRequests ! i)"
    by (simp add: nth_enumerate_eq)
  show "\<exists>d. batchPredict mlCreate Math_exp random (Some mlRequests)
                 = Status200 d ''Batch predictions completed''
           \<and> length (bd_results d) = length mlRequests
           \<and> (\<forall>i < length mlRequests.
                 bd_results d ! i = predictItem mlCreate Math_exp random (i, mlRequests ! i)
               \<and> bi_index (bd_results d ! i) = i
               \<and> bi_success (bd_results d ! i)
                   = (\<not> predictionRaises mlCreate Math_exp random (i, mlRequests ! i))
               \<and> (predictionRaises mlCreate Math_exp random (i, mlRequests ! i)
                    \<longrightarrow> bi_error (bd_results d ! i) = Some ''Prediction failed''))
           \<and> bd_total d = length mlRequests
           \<and> bd_successful d = length mlRequests - 1
           \<and> bd_failed d = 1"
    apply (rule exI [of _ ?d])
    using r b e n out apply simp
    done
qed

theorem batch_one_item_raises_witness:
  "(\<exists>d. batchAnalyze (\<lambda>i rq a. Inr ''id'') int (\<lambda>i. 4 * i)
          (Some [\<lparr> rq_text = ''good'', rq_analysisType = ''sentiment'', rq_options = None \<rparr>,
                 \<lparr> rq_text = ''good'', rq_analysisType = ''parse'', rq_options = None \<rparr>])
        = Status200 d ''Batch analysis completed''
      \<and> map bi_index (bd_results d) = [0, 1] \<and> map bi_success (bd_results d) = [True, False]
      \<and> bd_total d = 2 \<and> bd_successful d = 1 \<and> bd_failed d = 1)
   \<and> (\<exists>d. batchPredict (\<lambda>i rq a. Inr ''id'') exp (\<lambda>i. 1 / 2)
          (Some [\<lparr> mq_features = [1], mq_modelType = ''regression'', mq_options = None \<rparr>,
                 \<lparr> mq_features = [1], mq_modelType = ''clustering'', mq_options = None \<rparr>])
        = Status200 d ''Batch predictions completed''
      \<and> map bi_index (bd_results d) = [0, 1] \<and> map bi_success (bd_results d) = [False, True]
      \<and> bd_total d = 2 \<and> bd_successful d = 1 \<and> bd_failed d = 1)"
proof -
  let ?create = "\<lambda>(i::nat) (rq::AIAnalysisRequest) (a::AIAnalysisResponse). (Inr ''id'' :: error + string)"
  let ?tick = "\<lambda>i::nat. 4 * i"
  let ?r0 = "\<lparr> rq_text = ''good'', rq_analysisType = ''sentiment'', rq_options = None \<rparr>"
  let ?r1 = "\<lparr> rq_text = ''good'', rq_analysisType = ''parse'', rq_options = None \<rparr>"
  let ?mlCreate = "\<lambda>(i::nat) (rq::MLPredictionRequest) (a::MLPredictionResponse). (Inr ''id'' :: error + string)"
  let ?random = "\<lambda>i::nat. (1 / 2 :: real)"
  let ?m0 = "\<lparr> mq_features = [1], mq_modelType = ''regression'', mq_options = None \<rparr>"
  let ?m1 = "\<lparr> mq_features = [1], mq_modelType = ''clustering'', mq_options = None \<rparr>"
  have a0: "\<not> analysisRaises ?create int ?tick (0, ?r0)"
    using processAnalysis_sentiment_returns [of ?r0 int "?tick 0"]
    by (auto simp: analysisRaises_iff)
  have a1: "analysisRaises ?create int ?tick (1, ?r1)"
    using processAnalysis_unsupported_raises [of ?r1 int "?tick 1"]
    by (simp add: analysisRaises_iff)
  have p0: "predictionRaises ?mlCreate exp ?random (0, ?m0)"
    using makePrediction_unsupported_raises [of ?m0 exp "?random 0"]
    by (simp add: predictionRaises_iff)
  have p1: "\<not> predictionRaises ?mlCreate exp ?random (1, ?m1)"
    using makePrediction_clustering_returns [of ?m1 exp "?random 1"]
    by (auto simp: predictionRaises_iff)
  have e2: "enumerate 0 [x, y] = [(0, x), (Suc 0, y)]" for x y :: 'a
    by (simp add: enumerate_eq_zip upt_rec)
  have n2: "(\<forall>i < Suc (Suc 0). P i) = (P 0 \<and> P (Suc 0))" for P
    by (auto simp: less_Suc_eq)
  have l2: "length xs = Suc (Suc 0) \<Longrightarrow> map f xs = [f (xs ! 0), f (xs ! Suc 0)]" for f :: "'b \<Rightarrow> 'c" and xs
    by (cases xs; cases "tl xs") auto
  show ?thesis
    using batch_one_item_raises [of "[?r0, ?r1]" ?create int ?tick "[?m0, ?m1]" ?mlCreate exp ?random]
          a0 a1 p0 p1
    by (auto simp: e2 n2 l2)
qed

end
